theory Spec2Isabelle
  imports Main "HOL-Library.AList"
begin

section \<open>The realtime WebSocket server (class ReflexRealtimeServer)\<close>

text \<open>
  A shallow embedding of the class \<open>ReflexRealtimeServer\<close>. The three private maps
  \<open>clients\<close>, \<open>rooms\<close> and \<open>userSessions\<close> are JavaScript \<open>Map\<close>s, whose iteration
  order is insertion order: they are association lists here, read with \<open>map_of\<close>, written
  with \<open>AList.update\<close> (replace in place, or append) and \<open>AList.delete\<close>. A
  \<open>Set<string>\<close> is a list without repetition, in insertion order.

  What the server does to the outside world is recorded in the state: \<open>outbox\<close> holds
  every frame that \<open>ws.send\<close> accepted, \<open>console\<close> every line written to the console,
  \<open>timers\<close> the heartbeat intervals that are scheduled.

  The environment is explicit. Every handler receives the reading \<open>now\<close> of the clock
  (milliseconds; one reading for the whole handler), a transport handle carries its
  \<open>readyState\<close> and whether \<open>send\<close> raises on it (the environment changes both between
  two handlers, never during one), and the text that \<open>Math.random().toString(36)\<close>
  produced is an argument of the accept handler.

  An inbound payload is the object that the handlers destructure, with every field
  optional and of the type the handler uses. A payload that is not an object, or a
  field of another type, makes the handler raise a \<open>TypeError\<close> that the message
  callback catches; such frames are not modelled. A console line is its level and an
  English rendering of the text of the source.
\<close>

subsection \<open>Data model\<close>

datatype ready_state = CONNECTING | OPEN | CLOSING | CLOSED

record websocket =
  readyState :: ready_state
  sendThrows :: bool

record ClientConnection =
  client_id :: string
  ws :: websocket
  userId :: "string option"
  sessionId :: string
  connectedAt :: nat
  lastActivity :: nat
  subscriptions :: "string list"

datatype msg_type =
  STATE_SYNC | EVENT_BROADCAST | USER_JOIN | USER_LEAVE | HEARTBEAT | SUBSCRIBE | UNSUBSCRIBE

text \<open>A JavaScript value of type \<open>any\<close> that the server only copies: its JSON text,
  \<open>None\<close> when the field is missing.\<close>

type_synonym any = "string option"

text \<open>The payloads the server writes, one constructor per object literal of the source.\<close>

datatype out_payload =
    JoinPayload string string
  | StatePayload any
  | EventPayload any any string
  | LeavePayload string "string option"
  | AlivePayload
  | PingPayload

record RealtimeMessage =
  m_type :: msg_type
  m_payload :: out_payload
  m_timestamp :: nat
  m_clientId :: "string option"

text \<open>The payload of an inbound message, as the handlers destructure it: every field
  may be missing.\<close>

record payload =
  p_stateUpdates :: any
  p_targetUsers :: "string list option"
  p_excludeSelf :: "bool option"
  p_eventType :: any
  p_eventPayload :: any
  p_room :: "string option"
  p_subscriptions :: "string list option"
  p_userId :: "string option"
  p_rooms :: "string list option"

text \<open>An inbound message after \<open>JSON.parse\<close>: the type tag is whatever text the client
  sent.\<close>

record inbound =
  i_type :: string
  i_payload :: payload

datatype level = LOG | WARN | ERROR

record server =
  clients :: "(string \<times> ClientConnection) list"
  rooms :: "(string \<times> string list) list"
  userSessions :: "(string \<times> string list) list"
  timers :: "string list"
  outbox :: "(string \<times> RealtimeMessage) list"
  console :: "(level \<times> string) list"

definition init :: server where
  "init = \<lparr>clients = [], rooms = [], userSessions = [], timers = [], outbox = [], console = []\<rparr>"

text \<open>\<open>Set.prototype.add\<close>: a new element goes to the end, a present one stays.\<close>

definition set_add :: "'a \<Rightarrow> 'a list \<Rightarrow> 'a list" where
  "set_add x xs = (if x \<in> set xs then xs else xs @ [x])"

text \<open>JavaScript truthiness of an optional string: missing and the empty string are
  falsy.\<close>

fun truthy :: "string option \<Rightarrow> bool" where
  "truthy None = False"
| "truthy (Some v) = (v \<noteq> [])"

text \<open>The identifiers of the registry, in the order of \<open>this.clients.forEach\<close>.\<close>

definition registered :: "server \<Rightarrow> string list" where
  "registered s = map fst (clients s)"

text \<open>The set stored under a key of a map of sets, empty when the key is absent:
  \<open>this.rooms.get(roomId)\<close> is \<open>membersOf\<close>, \<open>this.userSessions.get(userId)\<close> is
  \<open>connectionsOf\<close>.\<close>

definition members_at :: "(string \<times> string list) list \<Rightarrow> string \<Rightarrow> string list" where
  "members_at m k = (case map_of m k of None \<Rightarrow> [] | Some members \<Rightarrow> members)"

definition membersOf :: "string \<Rightarrow> server \<Rightarrow> string list" where
  "membersOf roomId s = members_at (rooms s) roomId"

definition connectionsOf :: "string \<Rightarrow> server \<Rightarrow> string list" where
  "connectionsOf u s = members_at (userSessions s) u"

definition log_line :: "level \<Rightarrow> string \<Rightarrow> server \<Rightarrow> server" where
  "log_line l txt s = s\<lparr>console := console s @ [(l, txt)]\<rparr>"

subsection \<open>Client identifiers\<close>

definition digit :: "nat \<Rightarrow> char" where
  "digit d = ''0123456789'' ! d"

text \<open>The decimal text of a natural number, as a template literal prints the integer that
  \<open>Date.now()\<close> returns.\<close>

fun dec :: "nat \<Rightarrow> string" where
  "dec n = (if n < 10 then [digit n] else dec (n div 10) @ [digit (n mod 10)])"

text \<open>\<open>generateClientId\<close>: \<open>rnd\<close> is the text of \<open>Math.random().toString(36)\<close>, of which
  \<open>substr(2, 9)\<close> keeps at most nine characters after the first two.\<close>

definition generateClientId :: "nat \<Rightarrow> string \<Rightarrow> string" where
  "generateClientId now rnd = ''client_'' @ dec now @ ''_'' @ take 9 (drop 2 rnd)"

text \<open>\<open>extractSessionId\<close>: \<open>param\<close> is what \<open>url.searchParams.get("sessionId")\<close> returned.\<close>

definition extractSessionId :: "nat \<Rightarrow> string option \<Rightarrow> string" where
  "extractSessionId now param =
     (case param of Some v \<Rightarrow> if v \<noteq> [] then v else ''session_'' @ dec now
      | None \<Rightarrow> ''session_'' @ dec now)"

subsection \<open>Sending and the disconnect path\<close>

text \<open>The removal of the identifier from every room (the loop over \<open>this.rooms\<close> in
  \<open>handleDisconnection\<close>): a room that is empty after the removal is deleted.\<close>

fun purge_rooms :: "string \<Rightarrow> (string \<times> string list) list \<Rightarrow> (string \<times> string list) list" where
  "purge_rooms c [] = []"
| "purge_rooms c ((roomId, room) # rs) =
     (let room' = removeAll c room
      in if length room' = 0 then purge_rooms c rs else (roomId, room') # purge_rooms c rs)"

text \<open>\<open>set.delete(c)\<close> on the entry \<open>k\<close> of a map of sets, followed by the deletion of
  the entry when the set has become empty; nothing when there is no entry.\<close>

definition leave :: "string \<Rightarrow> string \<Rightarrow> (string \<times> string list) list \<Rightarrow> (string \<times> string list) list" where
  "leave k c m =
     (case map_of m k of
        None \<Rightarrow> m
      | Some members \<Rightarrow>
          (let members' = removeAll c members
           in if length members' = 0 then AList.delete k m else AList.update k members' m))"

text \<open>The synchronous part of \<open>handleDisconnection\<close>, up to the console line: the user
  session of the client's current \<open>userId\<close>, every room, the registry.\<close>

definition unregister :: "string \<Rightarrow> ClientConnection \<Rightarrow> server \<Rightarrow> server" where
  "unregister c client s =
     (let s1 = (if truthy (userId client)
                then s\<lparr>userSessions := leave (the (userId client)) c (userSessions s)\<rparr>
                else s);
          s2 = s1\<lparr>rooms := purge_rooms c (rooms s1)\<rparr>;
          s3 = s2\<lparr>clients := AList.delete c (clients s2)\<rparr>
      in log_line LOG (''client disconnected: '' @ c) s3)"

definition leave_message :: "nat \<Rightarrow> string \<Rightarrow> ClientConnection \<Rightarrow> RealtimeMessage" where
  "leave_message now c client =
     \<lparr>m_type = USER_LEAVE, m_payload = LeavePayload c (userId client),
      m_timestamp = now, m_clientId = None\<rparr>"

text \<open>
  \<open>sendToClient\<close>, \<open>handleDisconnection\<close> and \<open>broadcastToAll\<close> call each other: a write
  that raises disconnects the client, and a disconnection broadcasts USER_LEAVE. The first
  argument bounds the nesting of disconnections; \<open>None\<close> means that the bound was too
  small. Each nested disconnection removes a client, so the number of registered clients
  is always enough (lemma \<open>enough_fuel\<close> below).

  \<open>forEach_send\<close> is the body shared by the three broadcast loops,
  \<open>collection.forEach(id => { if (id !== excludeClientId) this.sendToClient(id, message) })\<close>.
  A \<open>forEach\<close> of a \<open>Map\<close> or a \<open>Set\<close> visits the entries in insertion order and skips
  an entry deleted before its turn; nothing is added while a broadcast runs. So the loop
  walks the keys \<open>ids\<close> present when it started and asks \<open>live\<close> whether the key is
  still in the collection.
\<close>

function (sequential)
  sendToClient :: "nat \<Rightarrow> nat \<Rightarrow> string \<Rightarrow> RealtimeMessage \<Rightarrow> server \<Rightarrow> server option"
and handleDisconnection :: "nat \<Rightarrow> nat \<Rightarrow> string \<Rightarrow> server \<Rightarrow> server option"
and broadcastToAll :: "nat \<Rightarrow> nat \<Rightarrow> RealtimeMessage \<Rightarrow> string option \<Rightarrow> server \<Rightarrow> server option"
and forEach_send :: "nat \<Rightarrow> nat \<Rightarrow> (server \<Rightarrow> string list) \<Rightarrow> string list \<Rightarrow> RealtimeMessage
                       \<Rightarrow> string option \<Rightarrow> server \<Rightarrow> server option"
where
  "sendToClient fuel now c message s =
     (case map_of (clients s) c of
        None \<Rightarrow> Some s
      | Some client \<Rightarrow>
          if readyState (ws client) \<noteq> OPEN then Some s
          else if sendThrows (ws client)
          then handleDisconnection fuel now c (log_line ERROR (''send failed: '' @ c) s)
          else Some (s\<lparr>outbox := outbox s @ [(c, message)]\<rparr>))"
| "handleDisconnection 0 now c s =
     (case map_of (clients s) c of None \<Rightarrow> Some s | Some client \<Rightarrow> None)"
| "handleDisconnection (Suc fuel) now c s =
     (case map_of (clients s) c of
        None \<Rightarrow> Some s
      | Some client \<Rightarrow>
          broadcastToAll fuel now (leave_message now c client) (Some c) (unregister c client s))"
| "broadcastToAll fuel now message excludeClientId s =
     forEach_send fuel now registered (registered s) message excludeClientId s"
| "forEach_send fuel now live [] message excludeClientId s = Some s"
| "forEach_send fuel now live (c # ids) message excludeClientId s =
     (if c \<in> set (live s) \<and> Some c \<noteq> excludeClientId
      then Option.bind (sendToClient fuel now c message s)
             (forEach_send fuel now live ids message excludeClientId)
      else forEach_send fuel now live ids message excludeClientId s)"
  by pat_completeness auto

termination
  by (relation "measures
        [case_sum (case_sum fst fst) (case_sum fst fst),
         case_sum (case_sum (\<lambda>_. 1) (\<lambda>_. 0)) (case_sum (\<lambda>_. 3) (\<lambda>_. 2)),
         case_sum (\<lambda>_. 0) (case_sum (\<lambda>_. 0) (\<lambda>p. length (fst (snd (snd (snd p))))))]")
     auto

declare sendToClient.simps [simp del] broadcastToAll.simps [simp del]

definition broadcastToUser ::
  "nat \<Rightarrow> nat \<Rightarrow> string \<Rightarrow> RealtimeMessage \<Rightarrow> string option \<Rightarrow> server \<Rightarrow> server option" where
  "broadcastToUser fuel now u message excludeClientId s =
     (case map_of (userSessions s) u of
        None \<Rightarrow> Some s
      | Some userClients \<Rightarrow>
          forEach_send fuel now (connectionsOf u) userClients message excludeClientId s)"

definition broadcastToRoom ::
  "nat \<Rightarrow> nat \<Rightarrow> string \<Rightarrow> RealtimeMessage \<Rightarrow> string option \<Rightarrow> server \<Rightarrow> server option" where
  "broadcastToRoom fuel now roomId message excludeClientId s =
     (case map_of (rooms s) roomId of
        None \<Rightarrow> Some s
      | Some room \<Rightarrow>
          forEach_send fuel now (membersOf roomId) room message excludeClientId s)"

subsection \<open>The message handlers\<close>

definition state_sync_message :: "nat \<Rightarrow> string \<Rightarrow> payload \<Rightarrow> RealtimeMessage" where
  "state_sync_message now c p =
     \<lparr>m_type = STATE_SYNC, m_payload = StatePayload (p_stateUpdates p),
      m_timestamp = now, m_clientId = Some c\<rparr>"

text \<open>\<open>targetUsers.forEach(userId => this.broadcastToUser(...))\<close>: an array, which nothing
  changes while the loop runs.\<close>

fun forEach_user ::
  "nat \<Rightarrow> nat \<Rightarrow> string list \<Rightarrow> RealtimeMessage \<Rightarrow> string option \<Rightarrow> server \<Rightarrow> server option" where
  "forEach_user fuel now [] message excludeClientId s = Some s"
| "forEach_user fuel now (u # us) message excludeClientId s =
     Option.bind (broadcastToUser fuel now u message excludeClientId s)
       (forEach_user fuel now us message excludeClientId)"

text \<open>The target of the exclusion in \<open>handleStateSync\<close>: \<open>excludeSelf ? clientId : undefined\<close>,
  with \<open>excludeSelf = true\<close> when the payload has no such field.\<close>

definition excluded :: "string \<Rightarrow> payload \<Rightarrow> string option" where
  "excluded c p =
     (if (case p_excludeSelf p of None \<Rightarrow> True | Some b \<Rightarrow> b) then Some c else None)"

definition handleStateSync :: "nat \<Rightarrow> nat \<Rightarrow> string \<Rightarrow> inbound \<Rightarrow> server \<Rightarrow> server option" where
  "handleStateSync fuel now c message s =
     (let p = i_payload message;
          broadcastMessage = state_sync_message now c p
      in case p_targetUsers p of
           None \<Rightarrow> broadcastToAll fuel now broadcastMessage (excluded c p) s
         | Some targetUsers \<Rightarrow>
             if length targetUsers > 0
             then forEach_user fuel now targetUsers broadcastMessage (excluded c p) s
             else broadcastToAll fuel now broadcastMessage (excluded c p) s)"

definition event_message :: "nat \<Rightarrow> string \<Rightarrow> payload \<Rightarrow> RealtimeMessage" where
  "event_message now c p =
     \<lparr>m_type = EVENT_BROADCAST, m_payload = EventPayload (p_eventType p) (p_eventPayload p) c,
      m_timestamp = now, m_clientId = Some c\<rparr>"

definition handleEventBroadcast :: "nat \<Rightarrow> nat \<Rightarrow> string \<Rightarrow> inbound \<Rightarrow> server \<Rightarrow> server option" where
  "handleEventBroadcast fuel now c message s =
     (let p = i_payload message;
          broadcastMessage = event_message now c p
      in if truthy (p_room p)
         then broadcastToRoom fuel now (the (p_room p)) broadcastMessage (Some c) s
         else broadcastToAll fuel now broadcastMessage (Some c) s)"

text \<open>\<open>if (!map.has(k)) map.set(k, new Set()); map.get(k).add(c)\<close>.\<close>

definition join :: "string \<Rightarrow> string \<Rightarrow> (string \<times> string list) list \<Rightarrow> (string \<times> string list) list" where
  "join k c m =
     AList.update k (set_add c (members_at m k)) m"

text \<open>In \<open>handleSubscribe\<close> and \<open>handleUnsubscribe\<close> the variable \<open>client\<close> is the object
  stored in the registry, changed in place: the model writes the changed record back
  under the same key.\<close>

definition handleSubscribe :: "string \<Rightarrow> inbound \<Rightarrow> server \<Rightarrow> server" where
  "handleSubscribe c message s =
     (case map_of (clients s) c of
        None \<Rightarrow> s
      | Some client \<Rightarrow>
          (let p = i_payload message;
               client1 = (if truthy (p_userId p) then client\<lparr>userId := p_userId p\<rparr> else client);
               us = (if truthy (p_userId p) then join (the (p_userId p)) c (userSessions s)
                     else userSessions s);
               client2 = (case p_subscriptions p of
                            None \<Rightarrow> client1
                          | Some subs \<Rightarrow>
                              client1\<lparr>subscriptions :=
                                foldl (\<lambda>acc sub. set_add sub acc) (subscriptions client1) subs\<rparr>);
               rs = (case p_rooms p of
                       None \<Rightarrow> rooms s
                     | Some roomIds \<Rightarrow> foldl (\<lambda>m roomId. join roomId c m) (rooms s) roomIds)
           in log_line LOG (''subscriptions updated: '' @ c)
                (s\<lparr>clients := AList.update c client2 (clients s), userSessions := us, rooms := rs\<rparr>)))"

definition handleUnsubscribe :: "string \<Rightarrow> inbound \<Rightarrow> server \<Rightarrow> server" where
  "handleUnsubscribe c message s =
     (case map_of (clients s) c of
        None \<Rightarrow> s
      | Some client \<Rightarrow>
          (let p = i_payload message;
               client1 = (case p_subscriptions p of
                            None \<Rightarrow> client
                          | Some subs \<Rightarrow>
                              client\<lparr>subscriptions :=
                                foldl (\<lambda>acc sub. removeAll sub acc) (subscriptions client) subs\<rparr>);
               rs = (case p_rooms p of
                       None \<Rightarrow> rooms s
                     | Some roomIds \<Rightarrow> foldl (\<lambda>m roomId. leave roomId c m) (rooms s) roomIds)
           in s\<lparr>clients := AList.update c client1 (clients s), rooms := rs\<rparr>))"

definition alive_message :: "nat \<Rightarrow> RealtimeMessage" where
  "alive_message now =
     \<lparr>m_type = HEARTBEAT, m_payload = AlivePayload, m_timestamp = now, m_clientId = None\<rparr>"

definition handleHeartbeat :: "nat \<Rightarrow> nat \<Rightarrow> string \<Rightarrow> inbound \<Rightarrow> server \<Rightarrow> server option" where
  "handleHeartbeat fuel now c message s =
     (case map_of (clients s) c of
        None \<Rightarrow> Some s
      | Some client \<Rightarrow>
          sendToClient fuel now c (alive_message now)
            (s\<lparr>clients := AList.update c (client\<lparr>lastActivity := now\<rparr>) (clients s)\<rparr>))"

definition handleMessage :: "nat \<Rightarrow> nat \<Rightarrow> string \<Rightarrow> inbound \<Rightarrow> server \<Rightarrow> server option" where
  "handleMessage fuel now c message s =
     (case map_of (clients s) c of
        None \<Rightarrow> Some s
      | Some client \<Rightarrow>
          (let s1 = s\<lparr>clients := AList.update c (client\<lparr>lastActivity := now\<rparr>) (clients s)\<rparr>
           in if i_type message = ''STATE_SYNC'' then handleStateSync fuel now c message s1
              else if i_type message = ''EVENT_BROADCAST'' then handleEventBroadcast fuel now c message s1
              else if i_type message = ''SUBSCRIBE'' then Some (handleSubscribe c message s1)
              else if i_type message = ''UNSUBSCRIBE'' then Some (handleUnsubscribe c message s1)
              else if i_type message = ''HEARTBEAT'' then handleHeartbeat fuel now c message s1
              else Some (log_line WARN (''unknown message type: '' @ i_type message) s1)))"

subsection \<open>Accepting a connection, heartbeat and sweep\<close>

definition join_message :: "nat \<Rightarrow> string \<Rightarrow> string \<Rightarrow> RealtimeMessage" where
  "join_message now c sid =
     \<lparr>m_type = USER_JOIN, m_payload = JoinPayload c sid, m_timestamp = now, m_clientId = None\<rparr>"

definition ping_message :: "nat \<Rightarrow> RealtimeMessage" where
  "ping_message now =
     \<lparr>m_type = HEARTBEAT, m_payload = PingPayload, m_timestamp = now, m_clientId = None\<rparr>"

text \<open>\<open>startHeartbeat\<close> schedules the interval; \<open>heartbeatTick\<close> is the body of its
  callback, and \<open>clearInterval\<close> unschedules it. The source keeps the handle of the
  interval in a variable local to \<open>startHeartbeat\<close>: only the callback can cancel it.\<close>

definition startHeartbeat :: "string \<Rightarrow> server \<Rightarrow> server" where
  "startHeartbeat c s = s\<lparr>timers := timers s @ [c]\<rparr>"

definition clearInterval :: "string \<Rightarrow> server \<Rightarrow> server" where
  "clearInterval c s = s\<lparr>timers := remove1 c (timers s)\<rparr>"

definition heartbeatTick :: "nat \<Rightarrow> nat \<Rightarrow> string \<Rightarrow> server \<Rightarrow> server option" where
  "heartbeatTick fuel now c s =
     (case map_of (clients s) c of
        None \<Rightarrow> Some (clearInterval c s)
      | Some client \<Rightarrow>
          if readyState (ws client) \<noteq> OPEN then Some (clearInterval c s)
          else sendToClient fuel now c (ping_message now) s)"

text \<open>The callback of \<open>wss.on("connection")\<close>.\<close>

definition onConnection ::
  "nat \<Rightarrow> nat \<Rightarrow> string \<Rightarrow> string option \<Rightarrow> websocket \<Rightarrow> server \<Rightarrow> server option" where
  "onConnection fuel now rnd param sock s =
     (let clientId = generateClientId now rnd;
          sid = extractSessionId now param;
          client = \<lparr>client_id = clientId, ws = sock, userId = None, sessionId = sid,
                    connectedAt = now, lastActivity = now, subscriptions = []\<rparr>;
          s1 = s\<lparr>clients := AList.update clientId client (clients s)\<rparr>;
          s2 = log_line LOG (''client connected: '' @ clientId) s1
      in Option.bind (sendToClient fuel now clientId (join_message now clientId sid) s2)
           (\<lambda>s3. Some (startHeartbeat clientId s3)))"

text \<open>The callback of \<open>ws.on("message")\<close>: \<open>JSON.parse\<close> either raises, and the error is
  caught and logged, or gives the message.\<close>

datatype raw = Unparsable | Parsed inbound

definition onMessage :: "nat \<Rightarrow> nat \<Rightarrow> string \<Rightarrow> raw \<Rightarrow> server \<Rightarrow> server option" where
  "onMessage fuel now c data s =
     (case data of
        Unparsable \<Rightarrow> Some (log_line ERROR (''message parse error: '' @ c) s)
      | Parsed message \<Rightarrow> handleMessage fuel now c message s)"

definition timeout :: int where
  "timeout = 5 * 60 * 1000"

text \<open>\<open>cleanupInactiveClients\<close>: the loop over the registry, which the disconnections it
  causes change while it runs.\<close>

fun sweep :: "nat \<Rightarrow> nat \<Rightarrow> string list \<Rightarrow> server \<Rightarrow> server option" where
  "sweep fuel now [] s = Some s"
| "sweep fuel now (c # ids) s =
     (case map_of (clients s) c of
        None \<Rightarrow> sweep fuel now ids s
      | Some client \<Rightarrow>
          if int now - int (lastActivity client) > timeout
          then Option.bind
                 (handleDisconnection fuel now c (log_line LOG (''cleaning up inactive client: '' @ c) s))
                 (sweep fuel now ids)
          else sweep fuel now ids s)"

definition cleanupInactiveClients :: "nat \<Rightarrow> nat \<Rightarrow> server \<Rightarrow> server option" where
  "cleanupInactiveClients fuel now s = sweep fuel now (registered s) s"

subsection \<open>The server as a transition system\<close>

text \<open>
  What can happen to the server: a connection is accepted, a frame arrives on a socket,
  a socket closes or reports an error, a heartbeat interval or the sweep interval fires,
  or the environment changes the state of a socket that is registered. \<open>step\<close> runs the
  callback of the event; the bound on nested disconnections is the number of registered
  clients, plus the one an accept adds.
\<close>

datatype event =
    Accept nat string "string option" websocket
  | Receive string nat raw
  | Close string nat
  | SocketError string nat
  | Tick string nat
  | Sweep nat
  | Transport string websocket

definition set_transport :: "string \<Rightarrow> websocket \<Rightarrow> server \<Rightarrow> server" where
  "set_transport c sock s =
     (case map_of (clients s) c of
        None \<Rightarrow> s
      | Some client \<Rightarrow> s\<lparr>clients := AList.update c (client\<lparr>ws := sock\<rparr>) (clients s)\<rparr>)"

fun step :: "event \<Rightarrow> server \<Rightarrow> server option" where
  "step (Accept now rnd param sock) s = onConnection (Suc (length (clients s))) now rnd param sock s"
| "step (Receive c now data) s = onMessage (length (clients s)) now c data s"
| "step (Close c now) s = handleDisconnection (length (clients s)) now c s"
| "step (SocketError c now) s =
     handleDisconnection (length (clients s)) now c (log_line ERROR (''socket error: '' @ c) s)"
| "step (Tick c now) s =
     (if c \<in> set (timers s) then heartbeatTick (length (clients s)) now c s else Some s)"
| "step (Sweep now) s = cleanupInactiveClients (length (clients s)) now s"
| "step (Transport c sock) s = Some (set_transport c sock s)"

fun run :: "event list \<Rightarrow> server \<Rightarrow> server option" where
  "run [] s = Some s"
| "run (e # es) s = Option.bind (step e s) (run es)"

subsection \<open>Predicates of the statements\<close>

text \<open>
  \<open>deliverable d s\<close>: the identifier is registered, its transport is open and a write
  on it does not raise. \<open>new_frames s s'\<close>: the frames written between the states \<open>s\<close>
  and \<open>s'\<close>, and \<open>recipients m s s'\<close> the connections that were written the frame \<open>m\<close>.
\<close>

definition deliverable :: "string \<Rightarrow> server \<Rightarrow> bool" where
  "deliverable d s =
     (case map_of (clients s) d of
        None \<Rightarrow> False
      | Some client \<Rightarrow> readyState (ws client) = OPEN \<and> \<not> sendThrows (ws client))"

definition new_frames :: "server \<Rightarrow> server \<Rightarrow> (string \<times> RealtimeMessage) list" where
  "new_frames s s' = drop (length (outbox s)) (outbox s')"

definition recipients :: "RealtimeMessage \<Rightarrow> server \<Rightarrow> server \<Rightarrow> string set" where
  "recipients m s s' = {d. (d, m) \<in> set (new_frames s s')}"

text \<open>\<open>wf_maps\<close>: the keys of a \<open>Map\<close> are unique. \<open>no_empty\<close>: no room and no user
  session is stored with an empty set. \<open>rooms_registered\<close>: every member of a room is
  registered.\<close>

definition wf_maps :: "server \<Rightarrow> bool" where
  "wf_maps s \<longleftrightarrow>
     distinct (map fst (clients s)) \<and> distinct (map fst (rooms s)) \<and>
     distinct (map fst (userSessions s))"

definition nonempty_sets :: "(string \<times> string list) list \<Rightarrow> bool" where
  "nonempty_sets m = list_all (\<lambda>e. snd e \<noteq> []) m"

definition no_empty :: "server \<Rightarrow> bool" where
  "no_empty s \<longleftrightarrow> nonempty_sets (rooms s) \<and> nonempty_sets (userSessions s)"

definition rooms_registered :: "server \<Rightarrow> bool" where
  "rooms_registered s \<longleftrightarrow>
     list_all (\<lambda>e. list_all (\<lambda>c. c \<in> set (registered s)) (snd e)) (rooms s)"

text \<open>The three maps of the server.\<close>

definition core :: "server \<Rightarrow>
    (string \<times> ClientConnection) list \<times> (string \<times> string list) list \<times> (string \<times> string list) list" where
  "core s = (clients s, rooms s, userSessions s)"

text \<open>The connections that \<open>handleStateSync\<close> resolves before the exclusion of the
  sender: the connections of the listed users, or every registered connection.\<close>

definition sync_targets :: "payload \<Rightarrow> server \<Rightarrow> string set" where
  "sync_targets p s =
     (case p_targetUsers p of
        None \<Rightarrow> set (registered s)
      | Some targetUsers \<Rightarrow>
          if targetUsers = [] then set (registered s)
          else (\<Union>u\<in>set targetUsers. set (connectionsOf u s)))"

text \<open>The test of \<open>cleanupInactiveClients\<close>: the last activity is older than the
  timeout.\<close>

definition inactive :: "nat \<Rightarrow> ClientConnection \<Rightarrow> bool" where
  "inactive now client \<longleftrightarrow> int now - int (lastActivity client) > timeout"

text \<open>The seven type tags of \<open>RealtimeMessage\<close>.\<close>

definition recognized :: "string list" where
  "recognized = [''STATE_SYNC'', ''EVENT_BROADCAST'', ''USER_JOIN'', ''USER_LEAVE'',
                 ''HEARTBEAT'', ''SUBSCRIBE'', ''UNSUBSCRIBE'']"

text \<open>The identifiers that a sequence of accepts returns: each accept reads the clock
  and draws the random text.\<close>

definition register_ids :: "(nat \<times> string) list \<Rightarrow> string list" where
  "register_ids draws = map (\<lambda>(now, rnd). generateClientId now rnd) draws"

subsection \<open>Relations of the proofs\<close>

text \<open>
  \<open>send_step\<close> is one effect of \<open>sendToClient\<close> on a registered client whose transport
  is open: the frame is written, or the write raises and the client is unregistered.
  \<open>disc_step\<close> also allows to unregister any client and to write a console line, as a
  closed socket and the sweep do. Every handler of the disconnect path is a sequence of
  such steps.

  \<open>stable live\<close>: a client that receives frames stays in the collection \<open>live\<close> while a
  broadcast runs. \<open>foreign now m s\<close>: no disconnection in the state \<open>s\<close> can announce
  itself with the message \<open>m\<close>. \<open>announced now s s'\<close>: for every client unregistered
  between \<open>s\<close> and \<open>s'\<close>, USER_LEAVE was written to every client that is registered in
  \<open>s'\<close> with an open transport.
\<close>

inductive disc_step :: "server \<Rightarrow> server \<Rightarrow> bool" where
  delivered: "map_of (clients s) c = Some client \<Longrightarrow> readyState (ws client) = OPEN \<Longrightarrow>
      \<not> sendThrows (ws client) \<Longrightarrow> disc_step s (s\<lparr>outbox := outbox s @ [(c, m)]\<rparr>)"
| evicted: "map_of (clients s) c = Some client \<Longrightarrow> disc_step s (unregister c client s)"
| logged: "disc_step s (log_line l txt s)"

inductive send_step :: "server \<Rightarrow> server \<Rightarrow> bool" where
  accepted: "map_of (clients s) c = Some client \<Longrightarrow> readyState (ws client) = OPEN \<Longrightarrow>
      \<not> sendThrows (ws client) \<Longrightarrow> send_step s (s\<lparr>outbox := outbox s @ [(c, m)]\<rparr>)"
| raised: "map_of (clients s) c = Some client \<Longrightarrow> readyState (ws client) = OPEN \<Longrightarrow>
      sendThrows (ws client) \<Longrightarrow> send_step s (unregister c client (log_line ERROR txt s))"

definition stable :: "(server \<Rightarrow> string list) \<Rightarrow> bool" where
  "stable live \<longleftrightarrow>
     (\<forall>s s' d. wf_maps s \<longrightarrow> send_step s s' \<longrightarrow> deliverable d s \<longrightarrow>
        (d \<in> set (live s') \<longleftrightarrow> d \<in> set (live s)))"

definition foreign :: "nat \<Rightarrow> RealtimeMessage \<Rightarrow> server \<Rightarrow> bool" where
  "foreign now m s \<longleftrightarrow>
     (\<forall>d client. map_of (clients s) d = Some client \<longrightarrow> leave_message now d client \<noteq> m)"

definition announced :: "nat \<Rightarrow> server \<Rightarrow> server \<Rightarrow> bool" where
  "announced now s s' \<longleftrightarrow>
     (\<forall>c client d cl.
        map_of (clients s) c = Some client \<longrightarrow> map_of (clients s') c = None \<longrightarrow>
        map_of (clients s') d = Some cl \<longrightarrow> readyState (ws cl) = OPEN \<longrightarrow>
        (d, leave_message now c client) \<in> set (new_frames s s'))"

subsection \<open>Example states and events\<close>

text \<open>Sockets, payloads and frames of the examples.\<close>

definition open_socket :: websocket where
  "open_socket = \<lparr>readyState = OPEN, sendThrows = False\<rparr>"

definition closing_socket :: websocket where
  "closing_socket = \<lparr>readyState = CLOSING, sendThrows = False\<rparr>"

definition throwing_socket :: websocket where
  "throwing_socket = \<lparr>readyState = OPEN, sendThrows = True\<rparr>"

definition no_payload :: payload where
  "no_payload = \<lparr>p_stateUpdates = None, p_targetUsers = None, p_excludeSelf = None,
     p_eventType = None, p_eventPayload = None, p_room = None, p_subscriptions = None,
     p_userId = None, p_rooms = None\<rparr>"

definition frame_of :: "string \<Rightarrow> payload \<Rightarrow> raw" where
  "frame_of tag p = Parsed \<lparr>i_type = tag, i_payload = p\<rparr>"

text \<open>Two clients join the room \<open>global\<close> and bind a user each; the first leaves the
  room, the second disconnects.\<close>

definition churn :: "event list" where
  "churn =
     [Accept 1 ''0.x'' None open_socket,
      Accept 2 ''0.y'' None open_socket,
      Receive ''client_1_x'' 3
        (frame_of ''SUBSCRIBE'' (no_payload\<lparr>p_userId := Some ''u1'', p_rooms := Some [''global'']\<rparr>)),
      Receive ''client_2_y'' 4
        (frame_of ''SUBSCRIBE'' (no_payload\<lparr>p_userId := Some ''u2'', p_rooms := Some [''global'']\<rparr>)),
      Receive ''client_1_x'' 5
        (frame_of ''UNSUBSCRIBE'' (no_payload\<lparr>p_rooms := Some [''global'']\<rparr>)),
      Close ''client_2_y'' 6]"

text \<open>A connection binds the user \<open>u1\<close>, binds the user \<open>u2\<close> with a second SUBSCRIBE,
  and disconnects.\<close>

definition rebind :: "event list" where
  "rebind =
     [Accept 1 ''0.x'' None open_socket,
      Receive ''client_1_x'' 2 (frame_of ''SUBSCRIBE'' (no_payload\<lparr>p_userId := Some ''u1''\<rparr>)),
      Receive ''client_1_x'' 3 (frame_of ''SUBSCRIBE'' (no_payload\<lparr>p_userId := Some ''u2''\<rparr>)),
      Close ''client_1_x'' 4]"

text \<open>The state after one connection has been accepted.\<close>

definition one_client :: server where
  "one_client =
     \<lparr>clients = [(''client_1_x'',
         \<lparr>client_id = ''client_1_x'', ws = open_socket, userId = None, sessionId = ''session_1'',
          connectedAt = 1, lastActivity = 1, subscriptions = []\<rparr>)],
      rooms = [], userSessions = [], timers = [''client_1_x''],
      outbox = [(''client_1_x'', join_message 1 ''client_1_x'' ''session_1'')],
      console = [(LOG, ''client connected: client_1_x'')]\<rparr>"

text \<open>The state after a connection has been accepted and its transport has started to
  close.\<close>

definition closing_client :: server where
  "closing_client =
     \<lparr>clients = [(''client_1_x'',
         \<lparr>client_id = ''client_1_x'', ws = closing_socket, userId = None, sessionId = ''session_1'',
          connectedAt = 1, lastActivity = 1, subscriptions = []\<rparr>)],
      rooms = [], userSessions = [], timers = [''client_1_x''],
      outbox = [(''client_1_x'', join_message 1 ''client_1_x'' ''session_1'')],
      console = [(LOG, ''client connected: client_1_x'')]\<rparr>"

text \<open>The state after two connections have been accepted, the first of which has a
  transport on which \<open>send\<close> now raises.\<close>

definition failing_client :: server where
  "failing_client =
     \<lparr>clients = [(''client_1_x'',
         \<lparr>client_id = ''client_1_x'', ws = throwing_socket, userId = None, sessionId = ''session_1'',
          connectedAt = 1, lastActivity = 1, subscriptions = []\<rparr>),
        (''client_2_y'',
         \<lparr>client_id = ''client_2_y'', ws = open_socket, userId = None, sessionId = ''session_2'',
          connectedAt = 2, lastActivity = 2, subscriptions = []\<rparr>)],
      rooms = [], userSessions = [], timers = [''client_1_x'', ''client_2_y''],
      outbox = [(''client_1_x'', join_message 1 ''client_1_x'' ''session_1''),
                (''client_2_y'', join_message 2 ''client_2_y'' ''session_2'')],
      console = [(LOG, ''client connected: client_1_x''), (LOG, ''client connected: client_2_y'')]\<rparr>"

text \<open>Three connections bound to the user \<open>u1\<close> and joined to the room \<open>global\<close>; the
  transport of the second one has started to close.\<close>

definition sub_u1_global :: raw where
  "sub_u1_global =
     frame_of ''SUBSCRIBE'' (no_payload\<lparr>p_userId := Some ''u1'', p_rooms := Some [''global'']\<rparr>)"

definition member :: "string \<Rightarrow> string \<Rightarrow> websocket \<Rightarrow> nat \<Rightarrow> nat \<Rightarrow> ClientConnection" where
  "member c sid sock t0 t1 =
     \<lparr>client_id = c, ws = sock, userId = Some ''u1'', sessionId = sid,
      connectedAt = t0, lastActivity = t1, subscriptions = []\<rparr>"

definition three_clients :: server where
  "three_clients =
     \<lparr>clients =
        [(''client_1_x'', member ''client_1_x'' ''session_1'' open_socket 1 4),
         (''client_2_y'', member ''client_2_y'' ''session_2'' closing_socket 2 5),
         (''client_3_z'', member ''client_3_z'' ''session_3'' open_socket 3 6)],
      rooms = [(''global'', [''client_1_x'', ''client_2_y'', ''client_3_z''])],
      userSessions = [(''u1'', [''client_1_x'', ''client_2_y'', ''client_3_z''])],
      timers = [''client_1_x'', ''client_2_y'', ''client_3_z''],
      outbox =
        [(''client_1_x'', join_message 1 ''client_1_x'' ''session_1''),
         (''client_2_y'', join_message 2 ''client_2_y'' ''session_2''),
         (''client_3_z'', join_message 3 ''client_3_z'' ''session_3'')],
      console =
        [(LOG, ''client connected: client_1_x''),
         (LOG, ''client connected: client_2_y''),
         (LOG, ''client connected: client_3_z''),
         (LOG, ''subscriptions updated: client_1_x''),
         (LOG, ''subscriptions updated: client_2_y''),
         (LOG, ''subscriptions updated: client_3_z'')]\<rparr>"

text \<open>A SUBSCRIBE with a user, a topic and a room; an EVENT_BROADCAST to the room
  \<open>global\<close>; a STATE_SYNC to the user \<open>u1\<close>.\<close>

definition subscribe_frame :: inbound where
  "subscribe_frame =
     \<lparr>i_type = ''SUBSCRIBE'',
      i_payload = no_payload\<lparr>p_userId := Some ''u1'', p_subscriptions := Some [''news''],
                              p_rooms := Some [''global'']\<rparr>\<rparr>"

definition ping_event :: inbound where
  "ping_event =
     \<lparr>i_type = ''EVENT_BROADCAST'',
      i_payload = no_payload\<lparr>p_eventType := Some ''ping'', p_room := Some ''global''\<rparr>\<rparr>"

definition sync_u1 :: inbound where
  "sync_u1 =
     \<lparr>i_type = ''STATE_SYNC'',
      i_payload = no_payload\<lparr>p_stateUpdates := Some ''{}'', p_targetUsers := Some [''u1''],
                              p_excludeSelf := Some True\<rparr>\<rparr>"

section \<open>Properties\<close>

subsection \<open>Association lists, rooms and user sessions\<close>

lemma log_line_sel [simp]:
  "clients (log_line l txt s) = clients s"
  "rooms (log_line l txt s) = rooms s"
  "userSessions (log_line l txt s) = userSessions s"
  "timers (log_line l txt s) = timers s"
  "outbox (log_line l txt s) = outbox s"
  "console (log_line l txt s) = console s @ [(l, txt)]"
  by (simp_all add: log_line_def)

lemma unregister_sel [simp]:
  "clients (unregister c client s) = AList.delete c (clients s)"
  "rooms (unregister c client s) = purge_rooms c (rooms s)"
  "userSessions (unregister c client s) =
     (if truthy (userId client) then leave (the (userId client)) c (userSessions s)
      else userSessions s)"
  "timers (unregister c client s) = timers s"
  "outbox (unregister c client s) = outbox s"
  "console (unregister c client s) = console s @ [(LOG, ''client disconnected: '' @ c)]"
  by (simp_all add: unregister_def Let_def)

lemma send_step_disc: "send_step s s' \<Longrightarrow> rtranclp disc_step s s'"
proof (induction rule: send_step.induct)
  case (accepted s c client m)
  then show ?case by (intro r_into_rtranclp disc_step.intros(1))
next
  case (raised s c client t)
  have "disc_step s (log_line ERROR t s)" by (rule disc_step.intros(3))
  moreover have "disc_step (log_line ERROR t s) (unregister c client (log_line ERROR t s))"
    using raised by (intro disc_step.intros(2)) simp
  ultimately show ?case by (rule converse_rtranclp_into_rtranclp[OF _ r_into_rtranclp])
qed

lemma send_steps_disc: "rtranclp send_step s s' \<Longrightarrow> rtranclp disc_step s s'"
  by (induction rule: rtranclp_induct) (auto dest: send_step_disc)

lemma frame:
  "sendToClient fuel now c m s = Some s' \<Longrightarrow> rtranclp send_step s s'"
  "handleDisconnection fuel now c s = Some s' \<Longrightarrow>
     (case map_of (clients s) c of
        None \<Rightarrow> s' = s
      | Some client \<Rightarrow> rtranclp send_step (unregister c client s) s')"
  "broadcastToAll fuel now m ex s = Some s' \<Longrightarrow> rtranclp send_step s s'"
  "forEach_send fuel now live ids m ex s = Some s' \<Longrightarrow> rtranclp send_step s s'"
proof (induction fuel now c m s and fuel now c s and fuel now m ex s and fuel now live ids m ex s
       arbitrary: s' and s' and s' and s'
       rule: sendToClient_handleDisconnection_broadcastToAll_forEach_send.induct)
  case (1 fuel now c message s)
  show ?case
  proof (cases "map_of (clients s) c")
    case None
    with "1.prems" show ?thesis by (simp add: sendToClient.simps)
  next
    case (Some client)
    show ?thesis
    proof (cases "readyState (ws client) = OPEN")
      case False
      with Some "1.prems" show ?thesis by (simp add: sendToClient.simps)
    next
      case True
      show ?thesis
      proof (cases "sendThrows (ws client)")
        case False
        with Some True "1.prems"
        have "s' = s\<lparr>outbox := outbox s @ [(c, message)]\<rparr>" by (simp add: sendToClient.simps)
        with Some True False show ?thesis by (auto intro: send_step.accepted)
      next
        case thr: True
        let ?s1 = "log_line ERROR (''send failed: '' @ c) s"
        from Some True thr "1.prems"
        have hd: "handleDisconnection fuel now c ?s1 = Some s'" by (simp add: sendToClient.simps)
        from "1.IH"[OF Some _ thr hd] True Some
        have "rtranclp send_step (unregister c client ?s1) s'" by simp
        moreover have "send_step s (unregister c client ?s1)"
          using Some True thr by (rule send_step.raised)
        ultimately show ?thesis by (rule converse_rtranclp_into_rtranclp[rotated])
      qed
    qed
  qed
next
  case (2 now c s)
  then show ?case by (auto split: option.splits)
next
  case (3 fuel now c s)
  then show ?case by (auto split: option.splits)
next
  case (4 fuel now message excludeClientId s)
  then show ?case by (simp add: broadcastToAll.simps)
next
  case (5 fuel now live message excludeClientId s)
  then show ?case by simp
next
  case (6 fuel now live c ids message excludeClientId s)
  show ?case
  proof (cases "c \<in> set (live s) \<and> Some c \<noteq> excludeClientId")
    case True
    with "6.prems" obtain s1 where
      s1: "sendToClient fuel now c message s = Some s1"
      and rest: "forEach_send fuel now live ids message excludeClientId s1 = Some s'"
      by (auto simp: bind_eq_Some_conv)
    from "6.IH"(1)[OF True s1] "6.IH"(2)[OF True s1 rest] show ?thesis by simp
  next
    case False
    with "6.prems" "6.IH"(3) show ?thesis by simp
  qed
qed

lemma nonempty_sets_iff: "nonempty_sets m \<longleftrightarrow> (\<forall>k ms. (k, ms) \<in> set m \<longrightarrow> ms \<noteq> [])"
  by (auto simp: nonempty_sets_def list_all_iff)

lemma set_delete_subset: "set (AList.delete k al) \<subseteq> set al"
  by (auto simp: AList.delete_eq)

lemma set_update_subset: "set (AList.update k v al) \<subseteq> insert (k, v) (set al)"
  by (induction al) auto

lemma length_delete_le: "length (AList.delete k al) \<le> length al"
  by (simp add: AList.delete_eq)

lemma length_delete_less: "map_of al k = Some v \<Longrightarrow> length (AList.delete k al) < length al"
  by (induction al) (auto simp: AList.delete_eq less_Suc_eq_le split: if_splits)

lemma update_same: "map_of al k = Some v \<Longrightarrow> AList.update k v al = al"
  by (induction al) (auto split: if_splits)

lemma length_update_present: "map_of al k = Some v \<Longrightarrow> length (AList.update k v' al) = length al"
  by (induction al) (auto split: if_splits)

lemma keys_update_present: "map_of al k = Some v \<Longrightarrow> map fst (AList.update k v' al) = map fst al"
  by (induction al) (auto split: if_splits)

lemma purge_rooms_nonempty: "nonempty_sets (purge_rooms c rs)"
  by (induction c rs rule: purge_rooms.induct) (auto simp: nonempty_sets_def Let_def)

lemma purge_rooms_keys: "set (map fst (purge_rooms c rs)) \<subseteq> set (map fst rs)"
  by (induction c rs rule: purge_rooms.induct) (auto simp: Let_def)

lemma purge_rooms_distinct: "distinct (map fst rs) \<Longrightarrow> distinct (map fst (purge_rooms c rs))"
proof (induction c rs rule: purge_rooms.induct)
  case (1 c)
  then show ?case by simp
next
  case (2 c roomId room rs)
  then show ?case using purge_rooms_keys[of c rs] by (auto simp: Let_def)
qed

lemma purge_rooms_map_of:
  "distinct (map fst rs) \<Longrightarrow>
   map_of (purge_rooms c rs) r =
     (case map_of rs r of
        None \<Rightarrow> None
      | Some ms \<Rightarrow> if removeAll c ms = [] then None else Some (removeAll c ms))"
proof (induction c rs rule: purge_rooms.induct)
  case (1 c)
  then show ?case by simp
next
  case (2 c roomId room rs)
  have absent: "roomId \<notin> fst ` set rs \<Longrightarrow> map_of (purge_rooms c rs) roomId = None"
    using purge_rooms_keys[of c rs] by (auto simp: map_of_eq_None_iff)
  from 2 show ?case by (auto simp: Let_def absent split: option.splits)
qed

lemma nonempty_sets_delete: "nonempty_sets m \<Longrightarrow> nonempty_sets (AList.delete k m)"
  using set_delete_subset[of k m] unfolding nonempty_sets_iff by blast

lemma nonempty_sets_update: "nonempty_sets m \<Longrightarrow> v \<noteq> [] \<Longrightarrow> nonempty_sets (AList.update k v m)"
  using set_update_subset[of k v m] unfolding nonempty_sets_iff by blast

lemma leave_nonempty: "nonempty_sets m \<Longrightarrow> nonempty_sets (leave k c m)"
  by (auto simp: leave_def Let_def nonempty_sets_delete nonempty_sets_update split: option.splits)

lemma leave_distinct: "distinct (map fst m) \<Longrightarrow> distinct (map fst (leave k c m))"
  by (auto simp: leave_def Let_def distinct_update distinct_delete split: option.splits)

lemma leave_map_of:
  "map_of (leave k c m) k' =
     (if k' = k
      then (case map_of m k of
              None \<Rightarrow> None
            | Some ms \<Rightarrow> if removeAll c ms = [] then None else Some (removeAll c ms))
      else map_of m k')"
  by (auto simp: leave_def Let_def update_conv' delete_conv' split: option.splits)

lemma new_frames_append: "outbox s' = outbox s @ n \<Longrightarrow> new_frames s s' = n"
  by (simp add: new_frames_def)

lemma new_frames_trans:
  assumes "outbox s1 = outbox s @ n1" and "outbox s' = outbox s1 @ n2"
  shows "new_frames s s' = new_frames s s1 @ new_frames s1 s'"
  using assms by (simp add: new_frames_def)

lemma new_frames_refl [simp]: "new_frames s s = []"
  by (simp add: new_frames_def)

lemma disc_step_wf: "disc_step s s' \<Longrightarrow> wf_maps s \<Longrightarrow> wf_maps s'"
  by (induction rule: disc_step.induct)
     (auto simp: wf_maps_def distinct_delete purge_rooms_distinct leave_distinct)

lemma disc_step_no_empty: "disc_step s s' \<Longrightarrow> no_empty s \<Longrightarrow> no_empty s'"
  by (induction rule: disc_step.induct)
     (auto simp: no_empty_def purge_rooms_nonempty leave_nonempty)

lemma disc_step_outbox: "disc_step s s' \<Longrightarrow> \<exists>n. outbox s' = outbox s @ n"
  by (induction rule: disc_step.induct) auto

lemma disc_step_timers: "disc_step s s' \<Longrightarrow> timers s' = timers s"
  by (induction rule: disc_step.induct) auto

lemma disc_step_clients:
  "disc_step s s' \<Longrightarrow> map_of (clients s') d = Some cl \<Longrightarrow> map_of (clients s) d = Some cl"
  by (induction rule: disc_step.induct) (auto simp: delete_conv' split: if_splits)

lemma disc_step_length: "disc_step s s' \<Longrightarrow> length (clients s') \<le> length (clients s)"
  by (induction rule: disc_step.induct) (auto simp: length_delete_le)

lemma disc_steps_wf: "rtranclp disc_step s s' \<Longrightarrow> wf_maps s \<Longrightarrow> wf_maps s'"
  by (induction rule: rtranclp_induct) (auto dest: disc_step_wf)

lemma disc_steps_no_empty: "rtranclp disc_step s s' \<Longrightarrow> no_empty s \<Longrightarrow> no_empty s'"
  by (induction rule: rtranclp_induct) (auto dest: disc_step_no_empty)

lemma disc_steps_outbox: "rtranclp disc_step s s' \<Longrightarrow> \<exists>n. outbox s' = outbox s @ n"
  by (induction rule: rtranclp_induct) (auto dest!: disc_step_outbox)

lemma disc_steps_timers: "rtranclp disc_step s s' \<Longrightarrow> timers s' = timers s"
  by (induction rule: rtranclp_induct) (auto dest: disc_step_timers)

lemma disc_steps_clients:
  "rtranclp disc_step s s' \<Longrightarrow> map_of (clients s') d = Some cl \<Longrightarrow> map_of (clients s) d = Some cl"
  by (induction rule: rtranclp_induct) (auto dest: disc_step_clients)

lemma disc_steps_length: "rtranclp disc_step s s' \<Longrightarrow> length (clients s') \<le> length (clients s)"
  by (induction rule: rtranclp_induct) (auto dest: disc_step_length)

lemma send_step_deliverable: "send_step s s' \<Longrightarrow> deliverable d s' = deliverable d s"
  by (induction rule: send_step.induct) (auto simp: deliverable_def delete_conv' split: option.splits)

lemma send_step_new:
  "send_step s s' \<Longrightarrow> (d, m) \<in> set (new_frames s s') \<Longrightarrow> deliverable d s"
  by (induction rule: send_step.induct) (auto simp: new_frames_def deliverable_def)

lemma send_steps_deliverable: "rtranclp send_step s s' \<Longrightarrow> deliverable d s' = deliverable d s"
  by (induction rule: rtranclp_induct) (auto dest: send_step_deliverable)

lemma send_steps_new:
  "rtranclp send_step s s' \<Longrightarrow> (d, m) \<in> set (new_frames s s') \<Longrightarrow> deliverable d s"
proof (induction rule: rtranclp_induct)
  case base
  then show ?case by simp
next
  case (step y z)
  from step.hyps(1) obtain n1 where n1: "outbox y = outbox s @ n1"
    using disc_steps_outbox send_steps_disc by blast
  from step.hyps(2) obtain n2 where n2: "outbox z = outbox y @ n2"
    using disc_steps_outbox send_step_disc by blast
  from step.prems new_frames_trans[OF n1 n2]
  consider "(d, m) \<in> set (new_frames s y)" | "(d, m) \<in> set (new_frames y z)" by auto
  then show ?case
  proof cases
    case 1
    then show ?thesis by (rule step.IH)
  next
    case 2
    with step.hyps(2) have "deliverable d y" by (rule send_step_new)
    with step.hyps(1) show ?thesis by (simp add: send_steps_deliverable)
  qed
qed

lemma send_steps_stable:
  "rtranclp send_step s s' \<Longrightarrow> stable live \<Longrightarrow> wf_maps s \<Longrightarrow> deliverable d s \<Longrightarrow>
   (d \<in> set (live s') \<longleftrightarrow> d \<in> set (live s))"
proof (induction rule: rtranclp_induct)
  case base
  then show ?case by simp
next
  case (step y z)
  have "wf_maps y" using step.hyps(1) step.prems(2) disc_steps_wf send_steps_disc by blast
  moreover have "deliverable d y" using step.hyps(1) step.prems(3) by (simp add: send_steps_deliverable)
  ultimately have "d \<in> set (live z) \<longleftrightarrow> d \<in> set (live y)"
    using step.hyps(2) step.prems(1) unfolding stable_def by blast
  with step show ?case by simp
qed

lemma stable_registered: "stable registered"
  unfolding stable_def
proof (intro allI impI)
  fix s s' d
  assume "wf_maps s" "send_step s s'" "deliverable d s"
  from this(2,3) show "d \<in> set (registered s') \<longleftrightarrow> d \<in> set (registered s)"
    by (induction rule: send_step.induct)
       (auto simp: registered_def deliverable_def delete_keys split: option.splits)
qed

lemma removeAll_Nil_iff: "removeAll c ms = [] \<longleftrightarrow> set ms \<subseteq> {c}"
  by (induction ms) auto

lemma purge_rooms_members:
  assumes "distinct (map fst rs)" and "d \<noteq> c"
  shows "d \<in> set (members_at (purge_rooms c rs) r) \<longleftrightarrow> d \<in> set (members_at rs r)"
  using assms(2) purge_rooms_map_of[OF assms(1), of c r]
  by (auto simp: members_at_def removeAll_Nil_iff simp del: map_of_eq_Some_iff
           split: option.splits if_splits)

lemma leave_members:
  assumes "d \<noteq> c"
  shows "d \<in> set (members_at (leave k c m) k') \<longleftrightarrow> d \<in> set (members_at m k')"
  using assms leave_map_of[of k c m k']
  by (auto simp: members_at_def removeAll_Nil_iff simp del: map_of_eq_Some_iff
           split: option.splits if_splits)

lemma deliverable_not_throwing:
  "deliverable d s \<Longrightarrow> map_of (clients s) c = Some client \<Longrightarrow> sendThrows (ws client) \<Longrightarrow> d \<noteq> c"
  by (auto simp: deliverable_def)

lemma stable_membersOf: "stable (membersOf r)"
  unfolding stable_def
proof (intro allI impI)
  fix s s' d
  assume "wf_maps s" "send_step s s'" "deliverable d s"
  from this(2,1,3) show "d \<in> set (membersOf r s') \<longleftrightarrow> d \<in> set (membersOf r s)"
  proof (induction rule: send_step.induct)
    case (accepted s c client m)
    then show ?case by (simp add: membersOf_def)
  next
    case (raised s c client t)
    then have "d \<noteq> c" by (auto dest: deliverable_not_throwing)
    moreover have "distinct (map fst (rooms s))" using raised by (simp add: wf_maps_def)
    ultimately show ?case by (simp add: membersOf_def purge_rooms_members)
  qed
qed

lemma stable_connectionsOf: "stable (connectionsOf u)"
  unfolding stable_def
proof (intro allI impI)
  fix s s' d
  assume "wf_maps s" "send_step s s'" "deliverable d s"
  from this(2,1,3) show "d \<in> set (connectionsOf u s') \<longleftrightarrow> d \<in> set (connectionsOf u s)"
  proof (induction rule: send_step.induct)
    case (accepted s c client m)
    then show ?case by (simp add: connectionsOf_def)
  next
    case (raised s c client t)
    then have "d \<noteq> c" by (auto dest: deliverable_not_throwing)
    then show ?case by (simp add: connectionsOf_def leave_members)
  qed
qed

subsection \<open>Sending, disconnecting and broadcasting\<close>

lemma send_steps_length: "rtranclp send_step s s' \<Longrightarrow> length (clients s') \<le> length (clients s)"
  by (rule disc_steps_length[OF send_steps_disc])

lemma enough_fuel:
  "length (clients s) \<le> fuel \<Longrightarrow> \<exists>s'. sendToClient fuel now c m s = Some s'"
  "length (clients s) \<le> fuel \<Longrightarrow> \<exists>s'. handleDisconnection fuel now c s = Some s'"
  "length (clients s) \<le> fuel \<Longrightarrow> \<exists>s'. broadcastToAll fuel now m ex s = Some s'"
  "length (clients s) \<le> fuel \<Longrightarrow> \<exists>s'. forEach_send fuel now live ids m ex s = Some s'"
proof (induction fuel now c m s and fuel now c s and fuel now m ex s and fuel now live ids m ex s
       rule: sendToClient_handleDisconnection_broadcastToAll_forEach_send.induct)
  case (1 fuel now c message s)
  show ?case
  proof (cases "map_of (clients s) c")
    case None
    then show ?thesis by (simp add: sendToClient.simps)
  next
    case (Some client)
    show ?thesis
    proof (cases "readyState (ws client) = OPEN \<and> sendThrows (ws client)")
      case True
      with "1.IH"[OF Some] "1.prems" Some show ?thesis by (simp add: sendToClient.simps)
    next
      case False
      with Some show ?thesis by (auto simp: sendToClient.simps)
    qed
  qed
next
  case (2 now c s)
  then show ?case by simp
next
  case (3 fuel now c s)
  show ?case
  proof (cases "map_of (clients s) c")
    case None
    then show ?thesis by simp
  next
    case (Some client)
    from length_delete_less[OF Some] "3.prems"
    have "length (clients (unregister c client s)) \<le> fuel" by simp
    from "3.IH"[OF Some this] Some show ?thesis by simp
  qed
next
  case (4 fuel now message excludeClientId s)
  then show ?case by (simp add: broadcastToAll.simps)
next
  case (5 fuel now live message excludeClientId s)
  show ?case by simp
next
  case (6 fuel now live c ids message excludeClientId s)
  show ?case
  proof (cases "c \<in> set (live s) \<and> Some c \<noteq> excludeClientId")
    case True
    from "6.IH"(1)[OF True "6.prems"] obtain s1 where
      s1: "sendToClient fuel now c message s = Some s1" by blast
    from frame(1)[OF s1] "6.prems" have "length (clients s1) \<le> fuel"
      using send_steps_length by fastforce
    from "6.IH"(2)[OF True s1 this] s1 True show ?thesis by simp
  next
    case False
    with "6.IH"(3)[OF False "6.prems"] show ?thesis by auto
  qed
qed

lemma send_steps_outbox: "rtranclp send_step s s' \<Longrightarrow> \<exists>n. outbox s' = outbox s @ n"
  by (rule disc_steps_outbox[OF send_steps_disc])

lemma send_steps_wf: "rtranclp send_step s s' \<Longrightarrow> wf_maps s \<Longrightarrow> wf_maps s'"
  by (rule disc_steps_wf[OF send_steps_disc])

lemma send_steps_clients:
  "rtranclp send_step s s' \<Longrightarrow> map_of (clients s') d = Some cl \<Longrightarrow> map_of (clients s) d = Some cl"
  by (rule disc_steps_clients[OF send_steps_disc])

lemma foreign_steps: "rtranclp disc_step s s' \<Longrightarrow> foreign now m s \<Longrightarrow> foreign now m s'"
  unfolding foreign_def by (blast dest: disc_steps_clients)

lemma foreign_log [simp]: "foreign now m (log_line l t s) = foreign now m s"
  by (simp add: foreign_def)

lemma wf_maps_log [simp]: "wf_maps (log_line l t s) = wf_maps s"
  by (simp add: wf_maps_def)

lemma deliverable_log [simp]: "deliverable d (log_line l t s) = deliverable d s"
  by (simp add: deliverable_def)

lemma new_frames_log [simp]: "new_frames (log_line l t s) s' = new_frames s s'"
  by (simp add: new_frames_def)

lemma new_frames_unregister [simp]: "new_frames (unregister c client s) s' = new_frames s s'"
  by (simp add: new_frames_def)

lemma unregister_step: "map_of (clients s) c = Some client \<Longrightarrow> rtranclp disc_step s (unregister c client s)"
  by (intro r_into_rtranclp disc_step.intros(2))

lemma exact:
  "sendToClient fuel now c m' s = Some s' \<Longrightarrow> wf_maps s \<Longrightarrow> foreign now m s \<Longrightarrow>
     filter (\<lambda>x. snd x = m) (new_frames s s') = (if m' = m \<and> deliverable c s then [(c, m)] else [])"
  "handleDisconnection fuel now c s = Some s' \<Longrightarrow> wf_maps s \<Longrightarrow> foreign now m s \<Longrightarrow>
     filter (\<lambda>x. snd x = m) (new_frames s s') = []"
  "broadcastToAll fuel now m' ex s = Some s' \<Longrightarrow> wf_maps s \<Longrightarrow> foreign now m s \<Longrightarrow>
     filter (\<lambda>x. snd x = m) (new_frames s s') =
       (if m' = m
        then map (\<lambda>d. (d, m)) (filter (\<lambda>d. Some d \<noteq> ex \<and> deliverable d s) (registered s))
        else [])"
  "forEach_send fuel now live ids m' ex s = Some s' \<Longrightarrow> stable live \<Longrightarrow> wf_maps s \<Longrightarrow>
   foreign now m s \<Longrightarrow>
     filter (\<lambda>x. snd x = m) (new_frames s s') =
       (if m' = m
        then map (\<lambda>d. (d, m))
               (filter (\<lambda>d. d \<in> set (live s) \<and> Some d \<noteq> ex \<and> deliverable d s) ids)
        else [])"
proof (induction fuel now c m' s and fuel now c s and fuel now m' ex s and fuel now live ids m' ex s
       arbitrary: s' and s' and s' and s'
       rule: sendToClient_handleDisconnection_broadcastToAll_forEach_send.induct)
  case (1 fuel now c message s)
  show ?case
  proof (cases "map_of (clients s) c")
    case None
    with "1.prems" show ?thesis by (simp add: sendToClient.simps deliverable_def)
  next
    case (Some client)
    show ?thesis
    proof (cases "readyState (ws client) = OPEN")
      case False
      with Some "1.prems" show ?thesis by (simp add: sendToClient.simps deliverable_def)
    next
      case True
      show ?thesis
      proof (cases "sendThrows (ws client)")
        case False
        with Some True "1.prems"
        have "s' = s\<lparr>outbox := outbox s @ [(c, message)]\<rparr>" by (simp add: sendToClient.simps)
        with Some True False show ?thesis by (auto simp: new_frames_def deliverable_def)
      next
        case thr: True
        let ?s1 = "log_line ERROR (''send failed: '' @ c) s"
        from Some True thr "1.prems"
        have hd: "handleDisconnection fuel now c ?s1 = Some s'" by (simp add: sendToClient.simps)
        from "1.IH"[OF Some _ thr hd] True "1.prems"
        have "filter (\<lambda>x. snd x = m) (new_frames s s') = []" by simp
        with Some thr show ?thesis by (simp add: deliverable_def)
      qed
    qed
  qed
next
  case (2 now c s)
  then show ?case by (auto split: option.splits)
next
  case (3 fuel now c s)
  show ?case
  proof (cases "map_of (clients s) c")
    case None
    with "3.prems" show ?thesis by simp
  next
    case (Some client)
    let ?s0 = "unregister c client s"
    from Some "3.prems"
    have b: "broadcastToAll fuel now (leave_message now c client) (Some c) ?s0 = Some s'" by simp
    have "wf_maps ?s0" using disc_steps_wf[OF unregister_step[OF Some]] "3.prems" by simp
    moreover have "foreign now m ?s0" using foreign_steps[OF unregister_step[OF Some]] "3.prems" by simp
    moreover have "leave_message now c client \<noteq> m" using "3.prems"(3) Some by (simp add: foreign_def)
    ultimately show ?thesis using "3.IH"[OF Some b] by simp
  qed
next
  case (4 fuel now message excludeClientId s)
  from "4.prems"(1)
  have f: "forEach_send fuel now registered (registered s) message excludeClientId s = Some s'"
    by (simp add: broadcastToAll.simps)
  have "filter (\<lambda>d. d \<in> set (registered s) \<and> Some d \<noteq> excludeClientId \<and> deliverable d s) (registered s)
        = filter (\<lambda>d. Some d \<noteq> excludeClientId \<and> deliverable d s) (registered s)"
    by (rule filter_cong) auto
  with "4.IH"[OF f stable_registered "4.prems"(2,3)] show ?case by simp
next
  case (5 fuel now live message excludeClientId s)
  then show ?case by simp
next
  case (6 fuel now live c ids message excludeClientId s)
  show ?case
  proof (cases "c \<in> set (live s) \<and> Some c \<noteq> excludeClientId")
    case True
    with "6.prems" obtain s1 where
      s1: "sendToClient fuel now c message s = Some s1"
      and rest: "forEach_send fuel now live ids message excludeClientId s1 = Some s'"
      by (auto simp: bind_eq_Some_conv)
    note st1 = frame(1)[OF s1]
    note st2 = frame(4)[OF rest]
    from send_steps_outbox[OF st1] obtain n1 where n1: "outbox s1 = outbox s @ n1" by blast
    from send_steps_outbox[OF st2] obtain n2 where n2: "outbox s' = outbox s1 @ n2" by blast
    have wf1: "wf_maps s1" using send_steps_wf[OF st1] "6.prems" by simp
    have fo1: "foreign now m s1" using foreign_steps[OF send_steps_disc[OF st1]] "6.prems" by simp
    have pred: "(d \<in> set (live s1) \<and> Some d \<noteq> excludeClientId \<and> deliverable d s1) =
                (d \<in> set (live s) \<and> Some d \<noteq> excludeClientId \<and> deliverable d s)" for d
      using send_steps_deliverable[OF st1, of d] send_steps_stable[OF st1 "6.prems"(2,3), of d]
      by auto
    have "filter (\<lambda>x. snd x = m) (new_frames s s') =
          filter (\<lambda>x. snd x = m) (new_frames s s1) @ filter (\<lambda>x. snd x = m) (new_frames s1 s')"
      by (simp add: new_frames_trans[OF n1 n2])
    also have "filter (\<lambda>x. snd x = m) (new_frames s s1) =
               (if message = m \<and> deliverable c s then [(c, m)] else [])"
      using "6.IH"(1)[OF True s1 "6.prems"(3,4)] .
    also have "filter (\<lambda>x. snd x = m) (new_frames s1 s') =
               (if message = m
                then map (\<lambda>d. (d, m))
                       (filter (\<lambda>d. d \<in> set (live s) \<and> Some d \<noteq> excludeClientId \<and> deliverable d s) ids)
                else [])"
      using "6.IH"(2)[OF True s1 rest "6.prems"(2) wf1 fo1] by (simp add: pred)
    finally show ?thesis using True by simp
  next
    case False
    with "6.prems" have rest: "forEach_send fuel now live ids message excludeClientId s = Some s'"
      by auto
    from "6.IH"(3)[OF False rest "6.prems"(2,3,4)] False show ?thesis by auto
  qed
qed

lemma announced_same_clients: "clients s' = clients s \<Longrightarrow> announced now s s'"
  by (simp add: announced_def)

lemma announced_trans:
  assumes st1: "rtranclp disc_step s s1" and st2: "rtranclp disc_step s1 s'"
    and a1: "announced now s s1" and a2: "announced now s1 s'"
  shows "announced now s s'"
  unfolding announced_def
proof (intro allI impI)
  fix c client d cl
  assume c: "map_of (clients s) c = Some client" and gone: "map_of (clients s') c = None"
    and d: "map_of (clients s') d = Some cl" and op: "readyState (ws cl) = OPEN"
  from disc_steps_outbox[OF st1] obtain n1 where n1: "outbox s1 = outbox s @ n1" by blast
  from disc_steps_outbox[OF st2] obtain n2 where n2: "outbox s' = outbox s1 @ n2" by blast
  note split = new_frames_trans[OF n1 n2]
  from disc_steps_clients[OF st2 d] have d1: "map_of (clients s1) d = Some cl" .
  show "(d, leave_message now c client) \<in> set (new_frames s s')"
  proof (cases "map_of (clients s1) c")
    case None
    with a1 c d1 op have "(d, leave_message now c client) \<in> set (new_frames s s1)"
      unfolding announced_def by blast
    then show ?thesis by (simp add: split)
  next
    case (Some client')
    from disc_steps_clients[OF st1 Some] c have "client' = client" by simp
    with a2 Some gone d op have "(d, leave_message now c client) \<in> set (new_frames s1 s')"
      unfolding announced_def by blast
    then show ?thesis by (simp add: split)
  qed
qed

lemma registered_iff: "d \<in> set (registered s) \<longleftrightarrow> map_of (clients s) d \<noteq> None"
  by (simp add: registered_def map_of_eq_None_iff)

lemma survivors:
  "sendToClient fuel now c m s = Some s' \<Longrightarrow>
     announced now s s' \<and>
     (\<forall>cl. map_of (clients s') c = Some cl \<longrightarrow> readyState (ws cl) = OPEN \<longrightarrow>
        (c, m) \<in> set (new_frames s s'))"
  "handleDisconnection fuel now c s = Some s' \<Longrightarrow> announced now s s'"
  "broadcastToAll fuel now m ex s = Some s' \<Longrightarrow>
     announced now s s' \<and>
     (\<forall>d cl. map_of (clients s') d = Some cl \<longrightarrow> readyState (ws cl) = OPEN \<longrightarrow> Some d \<noteq> ex \<longrightarrow>
        (d, m) \<in> set (new_frames s s'))"
  "forEach_send fuel now live ids m ex s = Some s' \<Longrightarrow>
     announced now s s' \<and>
     ((\<forall>t. set (registered t) \<subseteq> set (live t)) \<longrightarrow>
      (\<forall>d\<in>set ids. \<forall>cl. map_of (clients s') d = Some cl \<longrightarrow> readyState (ws cl) = OPEN \<longrightarrow>
         Some d \<noteq> ex \<longrightarrow> (d, m) \<in> set (new_frames s s')))"
proof (induction fuel now c m s and fuel now c s and fuel now m ex s and fuel now live ids m ex s
       arbitrary: s' and s' and s' and s'
       rule: sendToClient_handleDisconnection_broadcastToAll_forEach_send.induct)
  case (1 fuel now c message s)
  show ?case
  proof (cases "map_of (clients s) c")
    case None
    with "1.prems" show ?thesis by (simp add: sendToClient.simps announced_same_clients)
  next
    case (Some client)
    show ?thesis
    proof (cases "readyState (ws client) = OPEN")
      case False
      with Some "1.prems" show ?thesis by (simp add: sendToClient.simps announced_same_clients)
    next
      case True
      show ?thesis
      proof (cases "sendThrows (ws client)")
        case False
        with Some True "1.prems"
        have "s' = s\<lparr>outbox := outbox s @ [(c, message)]\<rparr>" by (simp add: sendToClient.simps)
        then show ?thesis by (simp add: new_frames_def announced_same_clients)
      next
        case thr: True
        let ?s1 = "log_line ERROR (''send failed: '' @ c) s"
        from Some True thr "1.prems"
        have hd: "handleDisconnection fuel now c ?s1 = Some s'" by (simp add: sendToClient.simps)
        from "1.IH"[OF Some _ thr hd] True have "announced now ?s1 s'" by simp
        then have a: "announced now s s'" by (simp add: announced_def)
        from frame(2)[OF hd] Some have "rtranclp send_step (unregister c client ?s1) s'" by simp
        from send_steps_clients[OF this, of c] have "map_of (clients s') c = None"
          by (cases "map_of (clients s') c") (simp_all add: delete_conv')
        with a show ?thesis by simp
      qed
    qed
  qed
next
  case (2 now c s)
  then show ?case by (auto simp: announced_same_clients split: option.splits)
next
  case (3 fuel now c s)
  show ?case
  proof (cases "map_of (clients s) c")
    case None
    with "3.prems" show ?thesis by (simp add: announced_same_clients)
  next
    case (Some client)
    let ?s0 = "unregister c client s"
    let ?m0 = "leave_message now c client"
    from Some "3.prems"
    have b: "broadcastToAll fuel now ?m0 (Some c) ?s0 = Some s'" by simp
    note ih = "3.IH"[OF Some b]
    note st = send_steps_disc[OF frame(3)[OF b]]
    show ?thesis
      unfolding announced_def
    proof (intro allI impI)
      fix x clientx d cl
      assume x: "map_of (clients s) x = Some clientx" and gone: "map_of (clients s') x = None"
        and d: "map_of (clients s') d = Some cl" and op: "readyState (ws cl) = OPEN"
      from disc_steps_clients[OF st d] have d0: "map_of (clients ?s0) d = Some cl" .
      then have dc: "d \<noteq> c" by (auto simp: delete_conv' split: if_splits)
      show "(d, leave_message now x clientx) \<in> set (new_frames s s')"
      proof (cases "x = c")
        case True
        with x Some have "clientx = client" by simp
        moreover from ih d op dc have "(d, ?m0) \<in> set (new_frames ?s0 s')" by blast
        ultimately show ?thesis using True by simp
      next
        case False
        with x have "map_of (clients ?s0) x = Some clientx" by (simp add: delete_conv')
        with ih gone d op have "(d, leave_message now x clientx) \<in> set (new_frames ?s0 s')"
          unfolding announced_def by blast
        then show ?thesis by simp
      qed
    qed
  qed
next
  case (4 fuel now message excludeClientId s)
  from "4.prems"
  have f: "forEach_send fuel now registered (registered s) message excludeClientId s = Some s'"
    by (simp add: broadcastToAll.simps)
  note ih = "4.IH"[OF f]
  note st = send_steps_disc[OF frame(4)[OF f]]
  have "d \<in> set (registered s)" if "map_of (clients s') d = Some cl" for d cl
    using disc_steps_clients[OF st that] by (simp add: registered_iff)
  with ih show ?case by blast
next
  case (5 fuel now live message excludeClientId s)
  then show ?case by (simp add: announced_same_clients)
next
  case (6 fuel now live c ids message excludeClientId s)
  show ?case
  proof (cases "c \<in> set (live s) \<and> Some c \<noteq> excludeClientId")
    case True
    with "6.prems" obtain s1 where
      s1: "sendToClient fuel now c message s = Some s1"
      and rest: "forEach_send fuel now live ids message excludeClientId s1 = Some s'"
      by (auto simp: bind_eq_Some_conv)
    note st1 = send_steps_disc[OF frame(1)[OF s1]]
    note st2 = send_steps_disc[OF frame(4)[OF rest]]
    from disc_steps_outbox[OF st1] obtain n1 where n1: "outbox s1 = outbox s @ n1" by blast
    from disc_steps_outbox[OF st2] obtain n2 where n2: "outbox s' = outbox s1 @ n2" by blast
    note split = new_frames_trans[OF n1 n2]
    note ih1 = "6.IH"(1)[OF True s1]
    note ih2 = "6.IH"(2)[OF True s1 rest]
    have a: "announced now s s'"
      using announced_trans[OF st1 st2] ih1 ih2 by blast
    have "(d, message) \<in> set (new_frames s s')"
      if sup: "\<forall>t. set (registered t) \<subseteq> set (live t)" and din: "d \<in> set (c # ids)"
        and d: "map_of (clients s') d = Some cl" and op: "readyState (ws cl) = OPEN"
        and ne: "Some d \<noteq> excludeClientId" for d cl
    proof (cases "d = c")
      case True
      from disc_steps_clients[OF st2 d] True have "map_of (clients s1) c = Some cl" by simp
      with ih1 op have "(c, message) \<in> set (new_frames s s1)" by blast
      with True show ?thesis by (simp add: split)
    next
      case False
      with din have "d \<in> set ids" by simp
      with ih2 sup d op ne have "(d, message) \<in> set (new_frames s1 s')" by blast
      then show ?thesis by (simp add: split)
    qed
    with a show ?thesis by blast
  next
    case False
    with "6.prems" have rest: "forEach_send fuel now live ids message excludeClientId s = Some s'"
      by auto
    note ih = "6.IH"(3)[OF False rest]
    note st = send_steps_disc[OF frame(4)[OF rest]]
    have "(d, message) \<in> set (new_frames s s')"
      if sup: "\<forall>t. set (registered t) \<subseteq> set (live t)" and din: "d \<in> set (c # ids)"
        and d: "map_of (clients s') d = Some cl" and op: "readyState (ws cl) = OPEN"
        and ne: "Some d \<noteq> excludeClientId" for d cl
    proof (cases "d = c")
      case True
      from disc_steps_clients[OF st d] have "d \<in> set (registered s)" by (simp add: registered_iff)
      with sup have "d \<in> set (live s)" by blast
      with True False ne show ?thesis by simp
    next
      case False
      with din have "d \<in> set ids" by simp
      with ih sup d op ne show ?thesis by blast
    qed
    with ih show ?thesis by blast
  qed
qed

subsection \<open>Client identifiers\<close>

declare dec.simps [simp del]

lemma digit_inj: "a < 10 \<Longrightarrow> b < 10 \<Longrightarrow> digit a = digit b \<Longrightarrow> a = b"
proof -
  assume a: "a < 10" and b: "b < 10" and e: "digit a = digit b"
  have d: "distinct ''0123456789''" by simp
  have l: "length ''0123456789'' = 10" by simp
  from e have "''0123456789'' ! a = ''0123456789'' ! b" by (simp add: digit_def)
  with d a b l show "a = b" by (metis nth_eq_iff_index_eq)
qed

lemma digit_in: "a < 10 \<Longrightarrow> digit a \<in> set ''0123456789''"
  unfolding digit_def by (rule nth_mem) simp

lemma dec_not_Nil: "dec n \<noteq> []"
  by (subst dec.simps) simp

lemma dec_digits: "set (dec n) \<subseteq> set ''0123456789''"
proof (induction n rule: dec.induct)
  case (1 n)
  show ?case
  proof (cases "n < 10")
    case True
    then show ?thesis using digit_in[of n] by (subst dec.simps) simp
  next
    case False
    have "n mod 10 < 10" by simp
    from digit_in[OF this] "1.IH"[OF False] False show ?thesis by (subst dec.simps) simp
  qed
qed

lemma dec_inj: "dec n = dec m \<Longrightarrow> n = m"
proof (induction n arbitrary: m rule: dec.induct)
  case (1 n)
  show ?case
  proof (cases "n < 10")
    case n: True
    show ?thesis
    proof (cases "m < 10")
      case True
      with n "1.prems" show ?thesis by (simp add: dec.simps[of n] dec.simps[of m] digit_inj)
    next
      case False
      with n "1.prems" dec_not_Nil[of "m div 10"] show ?thesis
        by (simp add: dec.simps[of n] dec.simps[of m])
    qed
  next
    case n: False
    show ?thesis
    proof (cases "m < 10")
      case True
      with n "1.prems" dec_not_Nil[of "n div 10"] show ?thesis
        by (simp add: dec.simps[of n] dec.simps[of m])
    next
      case False
      with n "1.prems" have e: "dec (n div 10) = dec (m div 10)" "digit (n mod 10) = digit (m mod 10)"
        by (simp_all add: dec.simps[of n] dec.simps[of m])
      from "1.IH"[OF n e(1)] have "n div 10 = m div 10" .
      moreover from e(2) have "n mod 10 = m mod 10" by (intro digit_inj) simp_all
      ultimately show ?thesis by (metis div_mult_mod_eq)
    qed
  qed
qed

lemma split_at_separator:
  assumes "a @ u # x = b @ u # y" and "u \<notin> set a" and "u \<notin> set b"
  shows "a = b \<and> x = y"
proof -
  have "\<And>v. v \<in> set a \<Longrightarrow> v \<noteq> u" "\<And>v. v \<in> set b \<Longrightarrow> v \<noteq> u" using assms(2,3) by blast+
  then have "takeWhile (\<lambda>v. v \<noteq> u) (a @ u # x) = a" "takeWhile (\<lambda>v. v \<noteq> u) (b @ u # y) = b"
    by (simp_all add: takeWhile_append2)
  then have "a = b" using assms(1) by simp
  with assms(1) show ?thesis by simp
qed

lemma generateClientId_eq_iff:
  "generateClientId t r = generateClientId t' r' \<longleftrightarrow> t = t' \<and> take 9 (drop 2 r) = take 9 (drop 2 r')"
proof
  assume "generateClientId t r = generateClientId t' r'"
  then have e: "dec t @ CHR ''_'' # take 9 (drop 2 r) = dec t' @ CHR ''_'' # take 9 (drop 2 r')"
    by (simp add: generateClientId_def)
  have "CHR ''_'' \<notin> set (dec t)" "CHR ''_'' \<notin> set (dec t')" using dec_digits by auto
  from split_at_separator[OF e this] show "t = t' \<and> take 9 (drop 2 r) = take 9 (drop 2 r')"
    by (auto dest: dec_inj)
next
  assume "t = t' \<and> take 9 (drop 2 r) = take 9 (drop 2 r')"
  then show "generateClientId t r = generateClientId t' r'" by (simp add: generateClientId_def)
qed

text \<open>
  Claim C8, as amended. The identifiers returned by a sequence of accepts are pairwise
  distinct exactly when the pairs (clock reading, nine characters kept of the random
  text) of the accepts are pairwise distinct: the identifier is an injective function of
  that pair, and nothing else enters it.
\<close>

theorem register_ids_distinct_iff:
  "distinct (register_ids draws) \<longleftrightarrow>
   distinct (map (\<lambda>(now, rnd). (now, take 9 (drop 2 rnd))) draws)"
proof -
  define f :: "nat \<times> string \<Rightarrow> string"
    where "f = (\<lambda>(now, suffix). ''client_'' @ dec now @ ''_'' @ suffix)"
  define h :: "nat \<times> string \<Rightarrow> nat \<times> string"
    where "h = (\<lambda>(now, rnd). (now, take 9 (drop 2 rnd)))"
  have eq: "register_ids draws = map f (map h draws)"
    by (simp add: register_ids_def generateClientId_def case_prod_unfold f_def h_def)
  have "inj f"
    unfolding inj_def
  proof (intro allI impI)
    fix p q :: "nat \<times> string"
    obtain t x where p: "p = (t, x)" by (cases p)
    obtain t' x' where q: "q = (t', x')" by (cases q)
    assume "f p = f q"
    with p q have e: "dec t @ CHR ''_'' # x = dec t' @ CHR ''_'' # x'" by (simp add: f_def)
    have "CHR ''_'' \<notin> set (dec t)" "CHR ''_'' \<notin> set (dec t')" using dec_digits by auto
    from split_at_separator[OF e this] p q show "p = q" by (auto dest: dec_inj)
  qed
  then have "inj_on f (set (map h draws))" by (rule inj_on_subset) simp
  then have "distinct (map f (map h draws)) \<longleftrightarrow> distinct (map h draws)"
    by (simp only: distinct_map simp_thms)
  with eq show ?thesis by (simp only: h_def)
qed

text \<open>
  Claim C8 as stated fails: two accepts in the same millisecond whose random texts agree
  on the nine characters that \<open>substr(2, 9)\<close> keeps return the same identifier.
\<close>

theorem register_ids_collide:
  "\<not> distinct (register_ids [(1000, ''0.abcdefghijk''), (1000, ''0.abcdefghijz'')])"
  by (simp add: register_ids_def generateClientId_def)

subsection \<open>The handlers as sequences of steps\<close>

lemma sendToClient_disc: "sendToClient fuel now c m s = Some s' \<Longrightarrow> rtranclp disc_step s s'"
  by (rule send_steps_disc[OF frame(1)])

lemma broadcastToAll_disc: "broadcastToAll fuel now m ex s = Some s' \<Longrightarrow> rtranclp disc_step s s'"
  by (rule send_steps_disc[OF frame(3)])

lemma handleDisconnection_disc:
  assumes "handleDisconnection fuel now c s = Some s'"
  shows "rtranclp disc_step s s'"
proof (cases "map_of (clients s) c")
  case None
  with frame(2)[OF assms] show ?thesis by simp
next
  case (Some client)
  with frame(2)[OF assms] have "rtranclp send_step (unregister c client s) s'" by simp
  from send_steps_disc[OF this] disc_step.intros(2)[OF Some] show ?thesis
    by (rule converse_rtranclp_into_rtranclp[rotated])
qed

lemma handleDisconnection_gone:
  assumes "handleDisconnection fuel now c s = Some s'"
  shows "map_of (clients s') c = None"
proof (cases "map_of (clients s) c")
  case None
  with frame(2)[OF assms] show ?thesis by simp
next
  case (Some client)
  with frame(2)[OF assms] have "rtranclp send_step (unregister c client s) s'" by simp
  from send_steps_clients[OF this, of c] show ?thesis
    by (cases "map_of (clients s') c") (simp_all add: delete_conv')
qed

lemma broadcastToUser_steps:
  "broadcastToUser fuel now u m ex s = Some s' \<Longrightarrow> rtranclp send_step s s'"
  by (auto simp: broadcastToUser_def split: option.splits dest: frame(4))

lemma broadcastToRoom_steps:
  "broadcastToRoom fuel now r m ex s = Some s' \<Longrightarrow> rtranclp send_step s s'"
  by (auto simp: broadcastToRoom_def split: option.splits dest: frame(4))

lemma forEach_user_steps:
  "forEach_user fuel now us m ex s = Some s' \<Longrightarrow> rtranclp send_step s s'"
proof (induction us arbitrary: s)
  case Nil
  then show ?case by simp
next
  case (Cons u us)
  then obtain s1 where s1: "broadcastToUser fuel now u m ex s = Some s1"
    and rest: "forEach_user fuel now us m ex s1 = Some s'"
    by (auto simp: bind_eq_Some_conv)
  from broadcastToUser_steps[OF s1] Cons.IH[OF rest] show ?case by simp
qed

lemma handleStateSync_steps:
  "handleStateSync fuel now c message s = Some s' \<Longrightarrow> rtranclp send_step s s'"
  by (auto simp: handleStateSync_def Let_def split: option.splits if_splits
           dest: frame(3) forEach_user_steps)

lemma handleEventBroadcast_steps:
  "handleEventBroadcast fuel now c message s = Some s' \<Longrightarrow> rtranclp send_step s s'"
  by (auto simp: handleEventBroadcast_def Let_def split: if_splits
           dest: frame(3) broadcastToRoom_steps)

lemma sweep_disc: "sweep fuel now ids s = Some s' \<Longrightarrow> rtranclp disc_step s s'"
proof (induction ids arbitrary: s)
  case Nil
  then show ?case by simp
next
  case (Cons c ids)
  show ?case
  proof (cases "map_of (clients s) c")
    case None
    with Cons show ?thesis by simp
  next
    case (Some client)
    show ?thesis
    proof (cases "int now - int (lastActivity client) > timeout")
      case True
      let ?s0 = "log_line LOG (''cleaning up inactive client: '' @ c) s"
      from Cons.prems Some True obtain s1 where
        s1: "handleDisconnection fuel now c ?s0 = Some s1" and rest: "sweep fuel now ids s1 = Some s'"
        by (auto simp: bind_eq_Some_conv)
      have "disc_step s ?s0" by (rule disc_step.intros(3))
      with handleDisconnection_disc[OF s1] have "rtranclp disc_step s s1"
        by (rule converse_rtranclp_into_rtranclp[rotated])
      with Cons.IH[OF rest] show ?thesis by simp
    next
      case False
      with Cons Some show ?thesis by simp
    qed
  qed
qed

text \<open>Enough fuel.\<close>

lemma broadcastToUser_total:
  "length (clients s) \<le> fuel \<Longrightarrow> \<exists>s'. broadcastToUser fuel now u m ex s = Some s'"
  by (auto simp: broadcastToUser_def split: option.splits intro: enough_fuel(4))

lemma broadcastToRoom_total:
  "length (clients s) \<le> fuel \<Longrightarrow> \<exists>s'. broadcastToRoom fuel now r m ex s = Some s'"
  by (auto simp: broadcastToRoom_def split: option.splits intro: enough_fuel(4))

lemma forEach_user_total:
  "length (clients s) \<le> fuel \<Longrightarrow> \<exists>s'. forEach_user fuel now us m ex s = Some s'"
proof (induction us arbitrary: s)
  case Nil
  then show ?case by simp
next
  case (Cons u us)
  from broadcastToUser_total[OF Cons.prems] obtain s1 where
    s1: "broadcastToUser fuel now u m ex s = Some s1" by blast
  from send_steps_length[OF broadcastToUser_steps[OF s1]] Cons.prems
  have "length (clients s1) \<le> fuel" by simp
  from Cons.IH[OF this] s1 show ?case by simp
qed

lemma handleStateSync_total:
  "length (clients s) \<le> fuel \<Longrightarrow> \<exists>s'. handleStateSync fuel now c message s = Some s'"
  by (auto simp: handleStateSync_def Let_def split: option.splits
           intro: enough_fuel(3) forEach_user_total)

lemma handleEventBroadcast_total:
  "length (clients s) \<le> fuel \<Longrightarrow> \<exists>s'. handleEventBroadcast fuel now c message s = Some s'"
  by (auto simp: handleEventBroadcast_def Let_def intro: enough_fuel(3) broadcastToRoom_total)

lemma sweep_total: "length (clients s) \<le> fuel \<Longrightarrow> \<exists>s'. sweep fuel now ids s = Some s'"
proof (induction ids arbitrary: s)
  case Nil
  then show ?case by simp
next
  case (Cons c ids)
  show ?case
  proof (cases "map_of (clients s) c")
    case None
    with Cons show ?thesis by simp
  next
    case (Some client)
    show ?thesis
    proof (cases "int now - int (lastActivity client) > timeout")
      case True
      let ?s0 = "log_line LOG (''cleaning up inactive client: '' @ c) s"
      from Cons.prems have "length (clients ?s0) \<le> fuel" by simp
      from enough_fuel(2)[OF this] obtain s1 where
        s1: "handleDisconnection fuel now c ?s0 = Some s1" by blast
      from disc_steps_length[OF handleDisconnection_disc[OF s1]] Cons.prems
      have "length (clients s1) \<le> fuel" by simp
      from Cons.IH[OF this] s1 Some True show ?thesis by simp
    next
      case False
      with Cons Some show ?thesis by simp
    qed
  qed
qed

subsection \<open>Every event preserves the representation and leaves no empty set\<close>

lemma no_empty_upd [simp]:
  "no_empty (s\<lparr>clients := x\<rparr>) = no_empty s"
  "no_empty (s\<lparr>timers := t\<rparr>) = no_empty s"
  "no_empty (s\<lparr>outbox := ob\<rparr>) = no_empty s"
  "no_empty (log_line l line s) = no_empty s"
  "no_empty (startHeartbeat c s) = no_empty s"
  "no_empty (clearInterval c s) = no_empty s"
  by (simp_all add: no_empty_def startHeartbeat_def clearInterval_def)

lemma wf_maps_upd [simp]:
  "wf_maps (s\<lparr>timers := t\<rparr>) = wf_maps s"
  "wf_maps (s\<lparr>outbox := ob\<rparr>) = wf_maps s"
  "wf_maps (startHeartbeat c s) = wf_maps s"
  "wf_maps (clearInterval c s) = wf_maps s"
  by (simp_all add: wf_maps_def startHeartbeat_def clearInterval_def)

lemma wf_maps_update_client:
  "wf_maps s \<Longrightarrow> wf_maps (s\<lparr>clients := AList.update c client (clients s)\<rparr>)"
  by (simp add: wf_maps_def distinct_update)

lemma set_add_not_Nil: "set_add c xs \<noteq> []"
  by (auto simp: set_add_def)

lemma join_nonempty: "nonempty_sets m \<Longrightarrow> nonempty_sets (join k c m)"
  by (simp add: join_def nonempty_sets_update set_add_not_Nil)

lemma join_distinct: "distinct (map fst m) \<Longrightarrow> distinct (map fst (join k c m))"
  by (simp add: join_def distinct_update)

lemma foldl_join_nonempty:
  "nonempty_sets m \<Longrightarrow> nonempty_sets (foldl (\<lambda>m roomId. join roomId c m) m rs)"
  by (induction rs arbitrary: m) (simp_all add: join_nonempty)

lemma foldl_join_distinct:
  "distinct (map fst m) \<Longrightarrow> distinct (map fst (foldl (\<lambda>m roomId. join roomId c m) m rs))"
  by (induction rs arbitrary: m) (simp_all add: join_distinct)

lemma foldl_leave_nonempty:
  "nonempty_sets m \<Longrightarrow> nonempty_sets (foldl (\<lambda>m roomId. leave roomId c m) m rs)"
  by (induction rs arbitrary: m) (simp_all add: leave_nonempty)

lemma foldl_leave_distinct:
  "distinct (map fst m) \<Longrightarrow> distinct (map fst (foldl (\<lambda>m roomId. leave roomId c m) m rs))"
  by (induction rs arbitrary: m) (simp_all add: leave_distinct)

lemma handleSubscribe_no_empty: "no_empty s \<Longrightarrow> no_empty (handleSubscribe c message s)"
  by (auto simp: handleSubscribe_def Let_def no_empty_def join_nonempty foldl_join_nonempty
           split: option.splits)

lemma handleSubscribe_wf: "wf_maps s \<Longrightarrow> wf_maps (handleSubscribe c message s)"
  by (auto simp: handleSubscribe_def Let_def wf_maps_def join_distinct foldl_join_distinct
                 distinct_update split: option.splits)

lemma handleUnsubscribe_no_empty: "no_empty s \<Longrightarrow> no_empty (handleUnsubscribe c message s)"
  by (auto simp: handleUnsubscribe_def Let_def no_empty_def foldl_leave_nonempty
           split: option.splits)

lemma handleUnsubscribe_wf: "wf_maps s \<Longrightarrow> wf_maps (handleUnsubscribe c message s)"
  by (auto simp: handleUnsubscribe_def Let_def wf_maps_def foldl_leave_distinct distinct_update
           split: option.splits)

lemma handleMessage_cases:
  assumes "handleMessage fuel now c message s = Some s'"
    and "map_of (clients s) c = Some client"
    and "s1 = s\<lparr>clients := AList.update c (client\<lparr>lastActivity := now\<rparr>) (clients s)\<rparr>"
  shows "handleStateSync fuel now c message s1 = Some s' \<or>
         handleEventBroadcast fuel now c message s1 = Some s' \<or>
         s' = handleSubscribe c message s1 \<or>
         s' = handleUnsubscribe c message s1 \<or>
         handleHeartbeat fuel now c message s1 = Some s' \<or>
         s' = log_line WARN (''unknown message type: '' @ i_type message) s1"
proof -
  have "handleMessage fuel now c message s =
          (if i_type message = ''STATE_SYNC'' then handleStateSync fuel now c message s1
              else if i_type message = ''EVENT_BROADCAST'' then handleEventBroadcast fuel now c message s1
              else if i_type message = ''SUBSCRIBE'' then Some (handleSubscribe c message s1)
              else if i_type message = ''UNSUBSCRIBE'' then Some (handleUnsubscribe c message s1)
              else if i_type message = ''HEARTBEAT'' then handleHeartbeat fuel now c message s1
              else Some (log_line WARN (''unknown message type: '' @ i_type message) s1))"
    unfolding handleMessage_def Let_def assms(2,3) by simp
  with assms(1) show ?thesis by (simp split: if_splits)
qed

text \<open>
  A property of the state is kept by every event as soon as it is kept by the steps of
  the disconnect path, by a write of a client record into the registry, by
  \<open>handleSubscribe\<close> and \<open>handleUnsubscribe\<close>, and does not depend on the timers.
\<close>

lemma disc_steps_preserve:
  assumes "\<And>s s'. disc_step s s' \<Longrightarrow> P s \<Longrightarrow> P s'"
  shows "rtranclp disc_step s s' \<Longrightarrow> P s \<Longrightarrow> P s'"
  by (induction rule: rtranclp_induct) (auto intro: assms)

lemma handleHeartbeat_preserves:
  assumes disc: "\<And>s s'. disc_step s s' \<Longrightarrow> P s \<Longrightarrow> P s'"
    and upd: "\<And>s c cl. P s \<Longrightarrow> P (s\<lparr>clients := AList.update c cl (clients s)\<rparr>)"
    and h: "handleHeartbeat fuel now c message s = Some s'" and p: "P s"
  shows "P s'"
proof (cases "map_of (clients s) c")
  case None
  with h p show ?thesis by (simp add: handleHeartbeat_def)
next
  case (Some client)
  let ?s1 = "s\<lparr>clients := AList.update c (client\<lparr>lastActivity := now\<rparr>) (clients s)\<rparr>"
  from h Some have "sendToClient fuel now c (alive_message now) ?s1 = Some s'"
    by (simp add: handleHeartbeat_def)
  from disc_steps_preserve[of P, OF disc sendToClient_disc[OF this] upd[OF p]] show ?thesis .
qed

lemma handleMessage_preserves:
  assumes disc: "\<And>s s'. disc_step s s' \<Longrightarrow> P s \<Longrightarrow> P s'"
    and upd: "\<And>s c cl. P s \<Longrightarrow> P (s\<lparr>clients := AList.update c cl (clients s)\<rparr>)"
    and sub: "\<And>s c m. P s \<Longrightarrow> P (handleSubscribe c m s)"
    and unsub: "\<And>s c m. P s \<Longrightarrow> P (handleUnsubscribe c m s)"
    and h: "handleMessage fuel now c message s = Some s'" and p: "P s"
  shows "P s'"
proof (cases "map_of (clients s) c")
  case None
  with h p show ?thesis by (simp add: handleMessage_def)
next
  case (Some client)
  define s1 where "s1 = s\<lparr>clients := AList.update c (client\<lparr>lastActivity := now\<rparr>) (clients s)\<rparr>"
  have p1: "P s1" unfolding s1_def using p by (rule upd)
  from handleMessage_cases[OF h Some s1_def] show ?thesis
  proof (elim disjE)
    assume "handleStateSync fuel now c message s1 = Some s'"
    from disc_steps_preserve[of P, OF disc send_steps_disc[OF handleStateSync_steps[OF this]] p1]
    show ?thesis .
  next
    assume "handleEventBroadcast fuel now c message s1 = Some s'"
    from disc_steps_preserve[of P, OF disc send_steps_disc[OF handleEventBroadcast_steps[OF this]] p1]
    show ?thesis .
  next
    assume "s' = handleSubscribe c message s1"
    with sub[OF p1] show ?thesis by simp
  next
    assume "s' = handleUnsubscribe c message s1"
    with unsub[OF p1] show ?thesis by simp
  next
    assume "handleHeartbeat fuel now c message s1 = Some s'"
    from handleHeartbeat_preserves[of P, OF disc upd this p1] show ?thesis .
  next
    assume "s' = log_line WARN (''unknown message type: '' @ i_type message) s1"
    with disc[OF disc_step.intros(3) p1] show ?thesis by simp
  qed
qed

lemma onConnection_preserves:
  assumes disc: "\<And>s s'. disc_step s s' \<Longrightarrow> P s \<Longrightarrow> P s'"
    and upd: "\<And>s c cl. P s \<Longrightarrow> P (s\<lparr>clients := AList.update c cl (clients s)\<rparr>)"
    and tim: "\<And>s t. P s \<Longrightarrow> P (s\<lparr>timers := t\<rparr>)"
    and h: "onConnection fuel now rnd param sock s = Some s'" and p: "P s"
  shows "P s'"
proof -
  define clientId where "clientId = generateClientId now rnd"
  define sid where "sid = extractSessionId now param"
  define client where "client = \<lparr>client_id = clientId, ws = sock, userId = None, sessionId = sid,
                    connectedAt = now, lastActivity = now, subscriptions = []\<rparr>"
  define s1 where "s1 = s\<lparr>clients := AList.update clientId client (clients s)\<rparr>"
  define s2 where "s2 = log_line LOG (''client connected: '' @ clientId) s1"
  from h obtain s3 where
    s3: "sendToClient fuel now clientId (join_message now clientId sid) s2 = Some s3"
    and s': "s' = startHeartbeat clientId s3"
    by (auto simp: onConnection_def Let_def bind_eq_Some_conv clientId_def sid_def client_def
          s1_def s2_def)
  have "P s1" unfolding s1_def using p by (rule upd)
  then have "P s2" unfolding s2_def by (rule disc[OF disc_step.intros(3)])
  from disc_steps_preserve[of P, OF disc sendToClient_disc[OF s3] this] have "P s3" .
  then show ?thesis unfolding s' startHeartbeat_def by (rule tim)
qed

lemma step_preserves:
  assumes disc: "\<And>s s'. disc_step s s' \<Longrightarrow> P s \<Longrightarrow> P s'"
    and upd: "\<And>s c cl. P s \<Longrightarrow> P (s\<lparr>clients := AList.update c cl (clients s)\<rparr>)"
    and sub: "\<And>s c m. P s \<Longrightarrow> P (handleSubscribe c m s)"
    and unsub: "\<And>s c m. P s \<Longrightarrow> P (handleUnsubscribe c m s)"
    and tim: "\<And>s t. P s \<Longrightarrow> P (s\<lparr>timers := t\<rparr>)"
    and h: "step e s = Some s'" and p: "P s"
  shows "P s'"
proof (cases e)
  case (Accept now rnd param sock)
  with h have "onConnection (Suc (length (clients s))) now rnd param sock s = Some s'" by simp
  from onConnection_preserves[of P, OF disc upd tim this p] show ?thesis .
next
  case (Receive c now data)
  show ?thesis
  proof (cases data)
    case Unparsable
    with h Receive have "s' = log_line ERROR (''message parse error: '' @ c) s"
      by (simp add: onMessage_def)
    with disc[OF disc_step.intros(3) p] show ?thesis by simp
  next
    case (Parsed message)
    with h Receive have "handleMessage (length (clients s)) now c message s = Some s'"
      by (simp add: onMessage_def)
    from handleMessage_preserves[of P, OF disc upd sub unsub this p] show ?thesis .
  qed
next
  case (Close c now)
  with h have "handleDisconnection (length (clients s)) now c s = Some s'" by simp
  from disc_steps_preserve[of P, OF disc handleDisconnection_disc[OF this] p] show ?thesis .
next
  case (SocketError c now)
  with h have "handleDisconnection (length (clients s)) now c
      (log_line ERROR (''socket error: '' @ c) s) = Some s'" by simp
  from disc_steps_preserve[of P, OF disc handleDisconnection_disc[OF this]
      disc[OF disc_step.intros(3) p]]
  show ?thesis .
next
  case (Tick c now)
  show ?thesis
  proof (cases "c \<in> set (timers s)")
    case False
    with h Tick p show ?thesis by simp
  next
    case True
    with h Tick have t: "heartbeatTick (length (clients s)) now c s = Some s'" by simp
    have "heartbeatTick (length (clients s)) now c s = Some (clearInterval c s) \<or>
          heartbeatTick (length (clients s)) now c s =
            sendToClient (length (clients s)) now c (ping_message now) s"
      by (simp add: heartbeatTick_def split: option.splits)
    then show ?thesis
    proof (elim disjE)
      assume "heartbeatTick (length (clients s)) now c s = Some (clearInterval c s)"
      with t have "s' = clearInterval c s" by simp
      then show ?thesis unfolding clearInterval_def using tim[OF p] by simp
    next
      assume "heartbeatTick (length (clients s)) now c s =
            sendToClient (length (clients s)) now c (ping_message now) s"
      with t have "sendToClient (length (clients s)) now c (ping_message now) s = Some s'" by simp
      from disc_steps_preserve[of P, OF disc sendToClient_disc[OF this] p] show ?thesis .
    qed
  qed
next
  case (Sweep now)
  with h have "sweep (length (clients s)) now (registered s) s = Some s'"
    by (simp add: cleanupInactiveClients_def)
  from disc_steps_preserve[of P, OF disc sweep_disc[OF this] p] show ?thesis .
next
  case (Transport c sock)
  with h have s': "s' = set_transport c sock s" by simp
  show ?thesis
  proof (cases "map_of (clients s) c")
    case None
    with s' p show ?thesis by (simp add: set_transport_def)
  next
    case (Some client)
    with s' upd[OF p, of c "client\<lparr>ws := sock\<rparr>"] show ?thesis by (simp add: set_transport_def)
  qed
qed

lemma run_preserves:
  assumes disc: "\<And>s s'. disc_step s s' \<Longrightarrow> P s \<Longrightarrow> P s'"
    and upd: "\<And>s c cl. P s \<Longrightarrow> P (s\<lparr>clients := AList.update c cl (clients s)\<rparr>)"
    and sub: "\<And>s c m. P s \<Longrightarrow> P (handleSubscribe c m s)"
    and unsub: "\<And>s c m. P s \<Longrightarrow> P (handleUnsubscribe c m s)"
    and tim: "\<And>s t. P s \<Longrightarrow> P (s\<lparr>timers := t\<rparr>)"
  shows "run evs s = Some s' \<Longrightarrow> P s \<Longrightarrow> P s'"
proof (induction evs arbitrary: s)
  case Nil
  then show ?case by simp
next
  case (Cons e evs)
  then obtain s1 where s1: "step e s = Some s1" and rest: "run evs s1 = Some s'"
    by (auto simp: bind_eq_Some_conv)
  from step_preserves[of P, OF disc upd sub unsub tim s1 Cons.prems(2)] have "P s1" .
  from Cons.IH[OF rest this] show ?case .
qed

lemma run_no_empty: "run evs s = Some s' \<Longrightarrow> no_empty s \<Longrightarrow> no_empty s'"
  by (rule run_preserves[of no_empty])
     (simp_all add: disc_step_no_empty handleSubscribe_no_empty handleUnsubscribe_no_empty)

lemma run_wf: "run evs s = Some s' \<Longrightarrow> wf_maps s \<Longrightarrow> wf_maps s'"
  by (rule run_preserves[of wf_maps])
     (simp_all add: disc_step_wf wf_maps_update_client handleSubscribe_wf handleUnsubscribe_wf)

lemma length_update_le: "length (AList.update k v al) \<le> Suc (length al)"
  by (induction al) auto

lemma step_total: "\<exists>s'. step e s = Some s'"
proof (cases e)
  case (Accept now rnd param sock)
  define clientId where "clientId = generateClientId now rnd"
  define sid where "sid = extractSessionId now param"
  define client where "client = \<lparr>client_id = clientId, ws = sock, userId = None, sessionId = sid,
                    connectedAt = now, lastActivity = now, subscriptions = []\<rparr>"
  define s2 where "s2 = log_line LOG (''client connected: '' @ clientId)
                          (s\<lparr>clients := AList.update clientId client (clients s)\<rparr>)"
  have "length (clients s2) \<le> Suc (length (clients s))" by (simp add: s2_def length_update_le)
  from enough_fuel(1)[OF this] obtain s3 where
    "sendToClient (Suc (length (clients s))) now clientId (join_message now clientId sid) s2 = Some s3"
    by blast
  then show ?thesis using Accept
    by (simp add: onConnection_def Let_def clientId_def sid_def client_def s2_def)
next
  case (Receive c now data)
  show ?thesis
  proof (cases data)
    case Unparsable
    with Receive show ?thesis by (simp add: onMessage_def)
  next
    case (Parsed message)
    show ?thesis
    proof (cases "map_of (clients s) c")
      case None
      with Receive Parsed show ?thesis by (simp add: onMessage_def handleMessage_def)
    next
      case (Some client)
      let ?s1 = "s\<lparr>clients := AList.update c (client\<lparr>lastActivity := now\<rparr>) (clients s)\<rparr>"
      have len: "length (clients ?s1) \<le> length (clients s)"
        using length_update_present[OF Some] by simp
      have "\<exists>s'. handleHeartbeat (length (clients s)) now c message ?s1 = Some s'"
      proof (cases "map_of (clients ?s1) c")
        case None
        then show ?thesis by (simp add: handleHeartbeat_def)
      next
        case (Some client1)
        let ?s2 = "?s1\<lparr>clients := AList.update c (client1\<lparr>lastActivity := now\<rparr>) (clients ?s1)\<rparr>"
        have "length (clients ?s2) = length (clients ?s1)"
          using length_update_present[OF Some, of "client1\<lparr>lastActivity := now\<rparr>"] by simp
        with len have "length (clients ?s2) \<le> length (clients s)" by simp
        from enough_fuel(1)[OF this] Some show ?thesis by (simp add: handleHeartbeat_def)
      qed
      with handleStateSync_total[OF len] handleEventBroadcast_total[OF len]
      show ?thesis using Receive Parsed Some
        by (auto simp: onMessage_def handleMessage_def Let_def)
    qed
  qed
next
  case (Close c now)
  then show ?thesis using enough_fuel(2)[of s "length (clients s)"] by simp
next
  case (SocketError c now)
  then show ?thesis
    using enough_fuel(2)[of "log_line ERROR (''socket error: '' @ c) s" "length (clients s)"] by simp
next
  case (Tick c now)
  then show ?thesis using enough_fuel(1)[of s "length (clients s)"]
    by (auto simp: heartbeatTick_def split: option.splits)
next
  case (Sweep now)
  then show ?thesis using sweep_total[of s "length (clients s)"]
    by (simp add: cleanupInactiveClients_def)
next
  case (Transport c sock)
  then show ?thesis by simp
qed

lemma run_total: "\<exists>s'. run evs s = Some s'"
proof (induction evs arbitrary: s)
  case Nil
  show ?case by simp
next
  case (Cons e evs)
  from step_total obtain s1 where "step e s = Some s1" by blast
  with Cons.IH[of s1] show ?case by simp
qed

lemma init_inv: "no_empty init" "wf_maps init"
  by (simp_all add: init_def no_empty_def nonempty_sets_def wf_maps_def)

subsection \<open>No empty room, no empty user session\<close>

text \<open>
  Claim C4. From the initial state every sequence of events leads to a state, and in that
  state no room and no user session is stored with an empty set of members: whatever
  removes a member (UNSUBSCRIBE, a closed or failed socket, a write that raises, the
  sweep) deletes the entry whose set it has emptied.
\<close>

theorem no_empty_reachable:
  "(\<exists>s. run evs init = Some s) \<and> (\<forall>s. run evs init = Some s \<longrightarrow> no_empty s)"
  using run_total[of evs init] run_no_empty[of evs init, OF _ init_inv(1)] by blast

theorem no_empty_reachable_witness:
  "map_option (\<lambda>s. (rooms s, userSessions s, no_empty s)) (run churn init) =
     Some ([], [(''u1'', [''client_1_x''])], True)"
proof -
  from no_empty_reachable[of churn] obtain s where s: "run churn init = Some s" and ne: "no_empty s"
    by blast
  have "map_option (\<lambda>s. (rooms s, userSessions s)) (run churn init) =
          Some ([], [(''u1'', [''client_1_x''])])"
    by code_simp
  with s ne show ?thesis by simp
qed

subsection \<open>Unknown type tags and frames that do not parse\<close>

text \<open>
  Claim C9. A frame from a registered connection whose type tag is none of the seven
  tags changes nothing but the last-activity time of the sender and the console, which
  gets a warning: no frame is written, the registry keeps the same identifiers, rooms,
  user sessions and timers are untouched, and the handler returns. A frame that is not
  JSON only adds an error line to the console.
\<close>

theorem unknown_type_dropped:
  assumes "map_of (clients s) c = Some client" and "i_type message \<notin> set recognized"
  shows "(\<exists>s'. onMessage fuel now c (Parsed message) s = Some s' \<and>
            outbox s' = outbox s \<and> registered s' = registered s \<and> rooms s' = rooms s \<and>
            userSessions s' = userSessions s \<and> timers s' = timers s \<and>
            console s' = console s @ [(WARN, ''unknown message type: '' @ i_type message)]) \<and>
         onMessage fuel now c Unparsable s = Some (log_line ERROR (''message parse error: '' @ c) s)"
proof -
  let ?s1 = "s\<lparr>clients := AList.update c (client\<lparr>lastActivity := now\<rparr>) (clients s)\<rparr>"
  from assms(2) have "handleMessage fuel now c message s =
      Some (log_line WARN (''unknown message type: '' @ i_type message) ?s1)"
    unfolding handleMessage_def Let_def assms(1) recognized_def by simp
  then show ?thesis
    by (simp add: onMessage_def registered_def keys_update_present[OF assms(1)])
qed

theorem unknown_type_dropped_witness:
  "map_option (\<lambda>s. (registered s, new_frames one_client s, console s))
     (onMessage 1 2 ''client_1_x'' (frame_of ''NOT_A_TYPE'' no_payload) one_client) =
   Some ([''client_1_x''], [],
         [(LOG, ''client connected: client_1_x''), (WARN, ''unknown message type: NOT_A_TYPE'')])"
proof -
  have c: "map_of (clients one_client) ''client_1_x'' = Some (the (map_of (clients one_client) ''client_1_x''))"
    by (simp add: one_client_def)
  have t: "i_type \<lparr>i_type = ''NOT_A_TYPE'', i_payload = no_payload\<rparr> \<notin> set recognized"
    by (simp add: recognized_def)
  from unknown_type_dropped[OF c t, of 1 2] obtain s' where
    "onMessage 1 2 ''client_1_x''
       (Parsed \<lparr>i_type = ''NOT_A_TYPE'', i_payload = no_payload\<rparr>) one_client = Some s'"
    "outbox s' = outbox one_client" "registered s' = registered one_client"
    "console s' = console one_client @ [(WARN, ''unknown message type: '' @ ''NOT_A_TYPE'')]"
    by auto
  then show ?thesis by (simp add: frame_of_def new_frames_def one_client_def registered_def)
qed

lemma one_client_reachable: "run [Accept 1 ''0.x'' None open_socket] init = Some one_client"
  by code_simp

subsection \<open>The heartbeat interval\<close>

text \<open>
  Claim C7 as stated fails: after a connection has been accepted and its socket has closed,
  the registry is empty and the heartbeat interval of the connection is still scheduled.
\<close>

theorem heartbeat_outlives_connection:
  "map_option registered
     (run [Accept 1 ''0.x'' None open_socket, Close ''client_1_x'' 2] init) = Some [] \<and>
   map_option timers
     (run [Accept 1 ''0.x'' None open_socket, Close ''client_1_x'' 2] init) = Some [''client_1_x'']"
  by code_simp

text \<open>
  Claim C7, as amended. The disconnect path does not touch the heartbeat intervals: the
  interval of a removed connection stays scheduled. The callback of the interval checks
  on every tick that the connection is registered and that its transport is open: if
  not, it unschedules itself and writes no frame; if so, the tick is the send of a
  HEARTBEAT ping.
\<close>

theorem heartbeat_self_cancel:
  "(\<forall>s'. handleDisconnection fuel now c s = Some s' \<longrightarrow> timers s' = timers s) \<and>
   ((\<forall>client. map_of (clients s) c = Some client \<longrightarrow> readyState (ws client) \<noteq> OPEN) \<longrightarrow>
      heartbeatTick fuel now c s = Some (s\<lparr>timers := remove1 c (timers s)\<rparr>)) \<and>
   ((\<exists>client. map_of (clients s) c = Some client \<and> readyState (ws client) = OPEN) \<longrightarrow>
      heartbeatTick fuel now c s = sendToClient fuel now c (ping_message now) s)"
proof -
  have "timers s' = timers s" if "handleDisconnection fuel now c s = Some s'" for s'
    using disc_steps_timers[OF handleDisconnection_disc[OF that]] .
  then show ?thesis
    by (auto simp: heartbeatTick_def clearInterval_def split: option.splits)
qed

theorem heartbeat_self_cancel_witness:
  "map_option timers (handleDisconnection 1 2 ''client_1_x'' one_client) = Some [''client_1_x''] \<and>
   map_option (\<lambda>s. (timers s, new_frames one_client s))
     (Option.bind (handleDisconnection 1 2 ''client_1_x'' one_client)
        (heartbeatTick 1 30001 ''client_1_x'')) = Some ([], []) \<and>
   heartbeatTick 1 30001 ''client_1_x'' one_client =
     sendToClient 1 30001 ''client_1_x'' (ping_message 30001) one_client"
proof -
  from enough_fuel(2)[of one_client 1 2 "''client_1_x''"] obtain s' where
    hd: "handleDisconnection 1 2 ''client_1_x'' one_client = Some s'"
    by (auto simp: one_client_def)
  from heartbeat_self_cancel[of 1 2 "''client_1_x''" one_client] hd
  have t: "timers s' = [''client_1_x'']" by (simp add: one_client_def)
  have gone: "map_of (clients s') ''client_1_x'' = None" using hd by (rule handleDisconnection_gone)
  have quiet: "outbox s' = outbox one_client"
    using hd[symmetric]
    by (simp add: one_client_def unregister_def Let_def log_line_def broadcastToAll.simps
          registered_def open_socket_def)
  from heartbeat_self_cancel[of 1 30001 "''client_1_x''" s'] gone t
  have "heartbeatTick 1 30001 ''client_1_x'' s' = Some (s'\<lparr>timers := []\<rparr>)" by simp
  moreover from heartbeat_self_cancel[of 1 30001 "''client_1_x''" one_client]
  have "heartbeatTick 1 30001 ''client_1_x'' one_client =
     sendToClient 1 30001 ''client_1_x'' (ping_message 30001) one_client"
    by (simp add: one_client_def open_socket_def)
  ultimately show ?thesis using hd t quiet by (simp add: new_frames_def)
qed

subsection \<open>A send that fails\<close>

lemma closing_client_reachable:
  "run [Accept 1 ''0.x'' None open_socket, Transport ''client_1_x'' closing_socket] init =
     Some closing_client"
  by code_simp

lemma failing_client_reachable:
  "run [Accept 1 ''0.x'' None open_socket, Accept 2 ''0.y'' None open_socket,
        Transport ''client_1_x'' throwing_socket] init = Some failing_client"
  by code_simp

lemma disc_step_members:
  "disc_step s s' \<Longrightarrow> wf_maps s \<Longrightarrow> c \<notin> set (membersOf r s) \<Longrightarrow> c \<notin> set (membersOf r s')"
proof (induction rule: disc_step.induct)
  case (delivered s c' client m)
  then show ?case by (simp add: membersOf_def)
next
  case (evicted s c' client)
  then have "distinct (map fst (rooms s))" by (simp add: wf_maps_def)
  from purge_rooms_map_of[OF this, of c' r] evicted.prems(2) show ?case
    by (auto simp: membersOf_def members_at_def simp del: map_of_eq_Some_iff
             split: option.splits if_splits)
next
  case (logged s l t)
  then show ?case by (simp add: membersOf_def)
qed

lemma disc_step_connections:
  "disc_step s s' \<Longrightarrow> c \<notin> set (connectionsOf u s) \<Longrightarrow> c \<notin> set (connectionsOf u s')"
proof (induction rule: disc_step.induct)
  case (delivered s c' client m)
  then show ?case by (simp add: connectionsOf_def)
next
  case (evicted s c' client)
  from leave_map_of[of "the (userId client)" c' "userSessions s" u] evicted.prems show ?case
    by (auto simp: connectionsOf_def members_at_def simp del: map_of_eq_Some_iff
             split: option.splits if_splits)
next
  case (logged s l t)
  then show ?case by (simp add: connectionsOf_def)
qed

lemma disc_steps_members:
  "rtranclp disc_step s s' \<Longrightarrow> wf_maps s \<Longrightarrow> c \<notin> set (membersOf r s) \<Longrightarrow> c \<notin> set (membersOf r s')"
proof (induction rule: rtranclp_induct)
  case base
  then show ?case by simp
next
  case (step y z)
  from disc_steps_wf[OF step.hyps(1) step.prems(1)] step show ?case
    using disc_step_members by blast
qed

lemma disc_steps_connections:
  "rtranclp disc_step s s' \<Longrightarrow> c \<notin> set (connectionsOf u s) \<Longrightarrow> c \<notin> set (connectionsOf u s')"
  by (induction rule: rtranclp_induct) (auto dest: disc_step_connections)

lemma unregister_members:
  assumes "wf_maps s"
  shows "c \<notin> set (membersOf r (unregister c client s))"
proof -
  from assms have "distinct (map fst (rooms s))" by (simp add: wf_maps_def)
  from purge_rooms_map_of[OF this, of c r] show ?thesis
    by (auto simp: membersOf_def members_at_def simp del: map_of_eq_Some_iff
             split: option.splits if_splits)
qed

lemma unregister_connections:
  assumes "userId client = Some u" and "u \<noteq> []"
  shows "c \<notin> set (connectionsOf u (unregister c client s))"
  using leave_map_of[of u c "userSessions s" u] assms
  by (auto simp: connectionsOf_def members_at_def simp del: map_of_eq_Some_iff
           split: option.splits if_splits)

text \<open>
  Claim C5 as stated fails: a send to a registered connection whose transport is not open
  is skipped, and the connection stays registered.
\<close>

theorem send_skipped_not_removed:
  "sendToClient 1 3 ''client_1_x'' (ping_message 3) closing_client = Some closing_client \<and>
   registered closing_client = [''client_1_x'']"
  by (simp add: sendToClient.simps closing_client_def closing_socket_def registered_def)

text \<open>
  Claim C5, as amended. For every registered connection: a write that raises removes the
  connection at once through the disconnect path (it leaves the registry, every room
  and the session set of its user, and USER_LEAVE is written to every connection that
  is left with an open transport), and nothing is written to it, then or later in the
  same call: the send is neither retried nor buffered. When the transport is not open
  the send is skipped and the state does not change: the connection stays registered.
\<close>

theorem send_failure:
  assumes "wf_maps s" and "map_of (clients s) c = Some client"
  shows "(readyState (ws client) \<noteq> OPEN \<longrightarrow> sendToClient fuel now c m s = Some s) \<and>
         (readyState (ws client) = OPEN \<and> sendThrows (ws client) \<and> length (clients s) \<le> fuel \<longrightarrow>
            (\<exists>s'. sendToClient fuel now c m s = Some s' \<and>
               c \<notin> set (registered s') \<and>
               (\<forall>r. c \<notin> set (membersOf r s')) \<and>
               (\<forall>u. userId client = Some u \<and> u \<noteq> [] \<longrightarrow> c \<notin> set (connectionsOf u s')) \<and>
               (\<forall>m'. (c, m') \<notin> set (new_frames s s')) \<and>
               (\<forall>d cl. map_of (clients s') d = Some cl \<and> readyState (ws cl) = OPEN \<longrightarrow>
                  (d, leave_message now c client) \<in> set (new_frames s s'))))"
proof (intro conjI impI)
  assume "readyState (ws client) \<noteq> OPEN"
  with assms(2) show "sendToClient fuel now c m s = Some s" by (simp add: sendToClient.simps)
next
  assume a: "readyState (ws client) = OPEN \<and> sendThrows (ws client) \<and> length (clients s) \<le> fuel"
  let ?s1 = "log_line ERROR (''send failed: '' @ c) s"
  let ?s0 = "unregister c client ?s1"
  from a enough_fuel(1)[of s fuel now c m] obtain s' where s': "sendToClient fuel now c m s = Some s'"
    by blast
  with assms(2) a have hd: "handleDisconnection fuel now c ?s1 = Some s'"
    by (simp add: sendToClient.simps)
  from frame(2)[OF hd] assms(2) have st: "rtranclp send_step ?s0 s'" by simp
  note dst = send_steps_disc[OF st]
  have wf0: "wf_maps ?s0"
    using disc_step_wf[OF disc_step.intros(2), of ?s1 c client] assms by simp
  have gone: "map_of (clients s') c = None" using hd by (rule handleDisconnection_gone)
  then have 1: "c \<notin> set (registered s')" by (simp add: registered_iff)
  have 2: "c \<notin> set (membersOf r s')" for r
    using disc_steps_members[OF dst wf0 unregister_members] assms(1) by simp
  have 3: "c \<notin> set (connectionsOf u s')" if "userId client = Some u \<and> u \<noteq> []" for u
    using disc_steps_connections[OF dst unregister_connections] that by blast
  have 4: "(c, m') \<notin> set (new_frames s s')" for m'
  proof
    assume "(c, m') \<in> set (new_frames s s')"
    with send_steps_new[OF frame(1)[OF s']] have "deliverable c s" by blast
    with assms(2) a show False by (simp add: deliverable_def)
  qed
  have 5: "(d, leave_message now c client) \<in> set (new_frames s s')"
    if "map_of (clients s') d = Some cl \<and> readyState (ws cl) = OPEN" for d cl
    using survivors(1)[OF s'] assms(2) gone that unfolding announced_def by blast
  from s' 1 2 3 4 5
  show "\<exists>s'. sendToClient fuel now c m s = Some s' \<and>
               c \<notin> set (registered s') \<and>
               (\<forall>r. c \<notin> set (membersOf r s')) \<and>
               (\<forall>u. userId client = Some u \<and> u \<noteq> [] \<longrightarrow> c \<notin> set (connectionsOf u s')) \<and>
               (\<forall>m'. (c, m') \<notin> set (new_frames s s')) \<and>
               (\<forall>d cl. map_of (clients s') d = Some cl \<and> readyState (ws cl) = OPEN \<longrightarrow>
                  (d, leave_message now c client) \<in> set (new_frames s s'))"
    by blast
qed

theorem send_failure_witness:
  "sendToClient 1 3 ''client_1_x'' (ping_message 3) closing_client = Some closing_client \<and>
   map_option (\<lambda>s. (registered s, new_frames failing_client s))
     (sendToClient 2 3 ''client_1_x'' (ping_message 3) failing_client) =
   Some ([''client_2_y''],
         [(''client_2_y'', leave_message 3 ''client_1_x''
             (the (map_of (clients failing_client) ''client_1_x'')))])"
proof -
  have wf1: "wf_maps closing_client" by (simp add: wf_maps_def closing_client_def)
  have c1: "map_of (clients closing_client) ''client_1_x'' =
              Some (the (map_of (clients closing_client) ''client_1_x''))"
    by (simp add: closing_client_def)
  from send_failure[OF wf1 c1, of 1 3 "ping_message 3"]
  have skipped: "sendToClient 1 3 ''client_1_x'' (ping_message 3) closing_client = Some closing_client"
    by (simp add: closing_client_def closing_socket_def)
  have wf2: "wf_maps failing_client" by (simp add: wf_maps_def failing_client_def)
  have c2: "map_of (clients failing_client) ''client_1_x'' =
              Some (the (map_of (clients failing_client) ''client_1_x''))"
    by (simp add: failing_client_def)
  from send_failure[OF wf2 c2, of 2 3 "ping_message 3"] obtain s' where
    s': "sendToClient 2 3 ''client_1_x'' (ping_message 3) failing_client = Some s'"
    and gone: "''client_1_x'' \<notin> set (registered s')"
    by (auto simp: failing_client_def throwing_socket_def)
  have "map_option (\<lambda>s. (registered s, new_frames failing_client s))
     (sendToClient 2 3 ''client_1_x'' (ping_message 3) failing_client) =
   Some ([''client_2_y''],
         [(''client_2_y'', leave_message 3 ''client_1_x''
             (the (map_of (clients failing_client) ''client_1_x'')))])"
    by (simp add: sendToClient.simps broadcastToAll.simps failing_client_def throwing_socket_def
          open_socket_def numeral_2_eq_2 registered_def new_frames_def)
  with skipped show ?thesis by simp
qed

subsection \<open>SUBSCRIBE twice\<close>

lemma set_add_idem: "set_add c (set_add c xs) = set_add c xs"
  by (simp add: set_add_def)

lemma set_set_add: "set (set_add c xs) = insert c (set xs)"
  by (auto simp: set_add_def)

lemma foldl_set_add_set:
  "set (foldl (\<lambda>acc sub. set_add sub acc) acc subs) = set acc \<union> set subs"
  by (induction subs arbitrary: acc) (auto simp: set_set_add)

lemma foldl_set_add_absorb:
  "set subs \<subseteq> set acc \<Longrightarrow> foldl (\<lambda>acc sub. set_add sub acc) acc subs = acc"
  by (induction subs arbitrary: acc) (auto simp: set_add_def)

lemma foldl_set_add_idem:
  "foldl (\<lambda>acc sub. set_add sub acc) (foldl (\<lambda>acc sub. set_add sub acc) acc subs) subs =
   foldl (\<lambda>acc sub. set_add sub acc) acc subs"
  by (rule foldl_set_add_absorb) (simp add: foldl_set_add_set)

lemma update_update_same: "AList.update k v (AList.update k v' al) = AList.update k v al"
  by (induction al) auto

lemma members_at_update:
  "members_at (AList.update k v m) k' = (if k' = k then v else members_at m k')"
  by (simp add: members_at_def update_conv')

lemma join_idem: "join k c (join k c m) = join k c m"
  by (simp add: join_def members_at_update set_add_idem update_update_same)

lemma join_absorb:
  assumes "map_of m k = Some ms" and "c \<in> set ms"
  shows "join k c m = m"
  using assms by (simp add: join_def members_at_def set_add_def update_same)

lemma join_keeps:
  assumes "map_of m k = Some ms" and "c \<in> set ms"
  shows "\<exists>ms'. map_of (join k' c m) k = Some ms' \<and> c \<in> set ms'"
  using assms by (auto simp: join_def update_conv' members_at_def set_set_add)

lemma join_joined: "\<exists>ms'. map_of (join k c m) k = Some ms' \<and> c \<in> set ms'"
  by (simp add: join_def update_conv' set_set_add)

lemma foldl_join_keeps:
  assumes "map_of m k = Some ms" and "c \<in> set ms"
  shows "\<exists>ms'. map_of (foldl (\<lambda>m roomId. join roomId c m) m rs) k = Some ms' \<and> c \<in> set ms'"
  using assms
proof (induction rs arbitrary: m ms)
  case Nil
  then show ?case by simp
next
  case (Cons r rs)
  from join_keeps[OF Cons.prems, of r] obtain ms' where
    "map_of (join r c m) k = Some ms'" "c \<in> set ms'" by blast
  from Cons.IH[OF this] show ?case by simp
qed

lemma foldl_join_joined:
  "k \<in> set rs \<Longrightarrow>
   \<exists>ms'. map_of (foldl (\<lambda>m roomId. join roomId c m) m rs) k = Some ms' \<and> c \<in> set ms'"
proof (induction rs arbitrary: m)
  case Nil
  then show ?case by simp
next
  case (Cons r rs)
  show ?case
  proof (cases "k = r")
    case True
    from join_joined[of r c m] obtain ms' where
      "map_of (join r c m) r = Some ms'" "c \<in> set ms'" by blast
    from foldl_join_keeps[OF this, of rs] True show ?thesis by simp
  next
    case False
    with Cons.prems have "k \<in> set rs" by simp
    from Cons.IH[OF this, of "join r c m"] show ?thesis by simp
  qed
qed

lemma foldl_join_absorb:
  "(\<And>k. k \<in> set rs \<Longrightarrow> \<exists>ms. map_of m k = Some ms \<and> c \<in> set ms) \<Longrightarrow>
   foldl (\<lambda>m roomId. join roomId c m) m rs = m"
proof (induction rs)
  case Nil
  show ?case by simp
next
  case (Cons r rs)
  from Cons.prems[of r] obtain ms where "map_of m r = Some ms" "c \<in> set ms" by auto
  then have "join r c m = m" by (rule join_absorb)
  moreover have "foldl (\<lambda>m roomId. join roomId c m) m rs = m"
    using Cons.prems by (intro Cons.IH) simp
  ultimately show ?case by simp
qed

lemma foldl_join_idem:
  "foldl (\<lambda>m roomId. join roomId c m) (foldl (\<lambda>m roomId. join roomId c m) m rs) rs =
   foldl (\<lambda>m roomId. join roomId c m) m rs"
  by (rule foldl_join_absorb) (rule foldl_join_joined)

lemma handleSubscribe_idem:
  "core (handleSubscribe c message (handleSubscribe c message s)) = core (handleSubscribe c message s)"
proof (cases "map_of (clients s) c")
  case None
  then show ?thesis by (simp add: handleSubscribe_def)
next
  case (Some client)
  then show ?thesis
    by (simp add: handleSubscribe_def Let_def core_def update_conv' update_update_same join_idem
          foldl_join_idem foldl_set_add_idem split: option.splits)
qed

lemma handleMessage_subscribe:
  assumes "i_type message = ''SUBSCRIBE''"
  shows "handleMessage fuel now c message s =
     (case map_of (clients s) c of
        None \<Rightarrow> Some s
      | Some client \<Rightarrow>
          Some (handleSubscribe c message
                  (s\<lparr>clients := AList.update c (client\<lparr>lastActivity := now\<rparr>) (clients s)\<rparr>)))"
  unfolding handleMessage_def Let_def assms by (simp split: option.splits)

lemma handleMessage_subscribe_twice:
  assumes "i_type message = ''SUBSCRIBE''"
  shows "map_option core
           (Option.bind (handleMessage fuel t1 c message s) (handleMessage fuel' t2 c message)) =
         map_option core (handleMessage fuel' t2 c message s)"
proof (cases "map_of (clients s) c")
  case None
  then show ?thesis by (simp add: handleMessage_subscribe[OF assms])
next
  case (Some client)
  then show ?thesis
    by (simp add: handleMessage_subscribe[OF assms] handleSubscribe_def Let_def core_def
          update_conv' update_update_same join_idem foldl_join_idem foldl_set_add_idem
          split: option.splits)
qed

text \<open>
  Claim C10. Handling a SUBSCRIBE message a second time leaves the three maps of the
  server as the first handling left them: \<open>handleSubscribe\<close> is idempotent on them, and
  so is \<open>handleMessage\<close> on a SUBSCRIBE message, whose last-activity time is that of the
  latest handling.
\<close>

theorem subscribe_idempotent:
  "core (handleSubscribe c message (handleSubscribe c message s)) =
     core (handleSubscribe c message s) \<and>
   (i_type message = ''SUBSCRIBE'' \<longrightarrow>
      map_option core
        (Option.bind (handleMessage fuel t1 c message s) (handleMessage fuel' t2 c message)) =
      map_option core (handleMessage fuel' t2 c message s))"
  using handleSubscribe_idem handleMessage_subscribe_twice by blast

theorem subscribe_idempotent_witness:
  "map_option core
     (Option.bind (handleMessage 1 2 ''client_1_x'' subscribe_frame one_client)
        (handleMessage 1 3 ''client_1_x'' subscribe_frame)) =
   Some ([(''client_1_x'',
           \<lparr>client_id = ''client_1_x'', ws = open_socket, userId = Some ''u1'',
            sessionId = ''session_1'', connectedAt = 1, lastActivity = 3,
            subscriptions = [''news'']\<rparr>)],
         [(''global'', [''client_1_x''])], [(''u1'', [''client_1_x''])])"
proof -
  have t: "i_type subscribe_frame = ''SUBSCRIBE''" by (simp add: subscribe_frame_def)
  have "map_option core (handleMessage 1 3 ''client_1_x'' subscribe_frame one_client) =
   Some ([(''client_1_x'',
           \<lparr>client_id = ''client_1_x'', ws = open_socket, userId = Some ''u1'',
            sessionId = ''session_1'', connectedAt = 1, lastActivity = 3,
            subscriptions = [''news'']\<rparr>)],
         [(''global'', [''client_1_x''])], [(''u1'', [''client_1_x''])])"
    by code_simp
  with subscribe_idempotent[of "''client_1_x''" subscribe_frame one_client 1 2 1 3] t
  show ?thesis by simp
qed

subsection \<open>EVENT_BROADCAST\<close>

lemma three_clients_reachable:
  "run [Accept 1 ''0.x'' None open_socket, Accept 2 ''0.y'' None open_socket,
        Accept 3 ''0.z'' None open_socket,
        Receive ''client_1_x'' 4 sub_u1_global, Receive ''client_2_y'' 5 sub_u1_global,
        Receive ''client_3_z'' 6 sub_u1_global,
        Transport ''client_2_y'' closing_socket] init = Some three_clients"
  by code_simp

lemma recipients_filter:
  "recipients m s s' = fst ` set (filter (\<lambda>x. snd x = m) (new_frames s s'))"
  by (force simp: recipients_def)

lemma foreign_type: "m_type m \<noteq> USER_LEAVE \<Longrightarrow> foreign now m s"
  by (auto simp: foreign_def leave_message_def)

lemma broadcastToAll_recipients:
  assumes "broadcastToAll fuel now m ex s = Some s'" and "wf_maps s" and "foreign now m s"
  shows "recipients m s s' = {d. Some d \<noteq> ex \<and> deliverable d s}"
proof -
  have "deliverable d s \<Longrightarrow> d \<in> set (registered s)" for d
    by (auto simp: deliverable_def registered_iff split: option.splits)
  then show ?thesis
    unfolding recipients_filter exact(3)[OF assms] by (auto simp: image_iff)
qed

lemma broadcastToRoom_recipients:
  assumes "broadcastToRoom fuel now r m ex s = Some s'" and "wf_maps s" and "foreign now m s"
  shows "recipients m s s' = {d \<in> set (membersOf r s). Some d \<noteq> ex \<and> deliverable d s}"
proof (cases "map_of (rooms s) r")
  case None
  with assms(1) show ?thesis
    by (simp add: broadcastToRoom_def recipients_def membersOf_def members_at_def)
next
  case (Some room)
  then have room: "membersOf r s = room" by (simp add: membersOf_def members_at_def)
  from assms(1) Some have "forEach_send fuel now (membersOf r) room m ex s = Some s'"
    by (simp add: broadcastToRoom_def)
  from exact(4)[OF this stable_membersOf assms(2,3)] show ?thesis
    unfolding recipients_filter room by (auto simp: image_iff)
qed

text \<open>
  Claim C1 as stated fails: the second member of the room has a transport that is not
  open; an EVENT_BROADCAST from the first member to the room is written to the third
  member only.
\<close>

theorem event_broadcast_skips_closing:
  "map_option (map fst \<circ> new_frames three_clients)
     (handleEventBroadcast 3 7 ''client_1_x'' ping_event three_clients) = Some [''client_3_z''] \<and>
   membersOf ''global'' three_clients = [''client_1_x'', ''client_2_y'', ''client_3_z'']"
  by code_simp

text \<open>
  Claim C1, as amended. When the router handles an EVENT_BROADCAST of a sender, the
  outbound message (event type, event payload and the identifier of the sender) is
  written to exactly these connections: if the payload names a room \<open>R\<close>, a non-empty
  string, the members of \<open>R\<close> other than the sender that are registered with an open
  transport on which the write does not raise; if the payload has no room, all such
  connections other than the sender.
\<close>

theorem event_broadcast_recipients:
  assumes "wf_maps s" and "length (clients s) \<le> fuel"
  shows "\<exists>s'. handleEventBroadcast fuel now c message s = Some s' \<and>
           m_payload (event_message now c (i_payload message)) =
             EventPayload (p_eventType (i_payload message)) (p_eventPayload (i_payload message)) c \<and>
           (\<forall>R. p_room (i_payload message) = Some R \<and> R \<noteq> [] \<longrightarrow>
              recipients (event_message now c (i_payload message)) s s' =
                {d \<in> set (membersOf R s). d \<noteq> c \<and> deliverable d s}) \<and>
           (p_room (i_payload message) = None \<longrightarrow>
              recipients (event_message now c (i_payload message)) s s' =
                {d \<in> set (registered s). d \<noteq> c \<and> deliverable d s})"
proof -
  let ?m = "event_message now c (i_payload message)"
  from handleEventBroadcast_total[OF assms(2)] obtain s' where
    s': "handleEventBroadcast fuel now c message s = Some s'" by blast
  have fo: "foreign now ?m s" by (rule foreign_type) (simp add: event_message_def)
  have reg: "deliverable d s \<Longrightarrow> d \<in> set (registered s)" for d
    by (auto simp: deliverable_def registered_iff split: option.splits)
  have room: "recipients ?m s s' = {d \<in> set (membersOf R s). d \<noteq> c \<and> deliverable d s}"
    if "p_room (i_payload message) = Some R \<and> R \<noteq> []" for R
  proof -
    from s' that have "broadcastToRoom fuel now R ?m (Some c) s = Some s'"
      by (simp add: handleEventBroadcast_def Let_def)
    from broadcastToRoom_recipients[OF this assms(1) fo] show ?thesis by simp
  qed
  have everyone: "recipients ?m s s' = {d \<in> set (registered s). d \<noteq> c \<and> deliverable d s}"
    if "p_room (i_payload message) = None"
  proof -
    from s' that have "broadcastToAll fuel now ?m (Some c) s = Some s'"
      by (simp add: handleEventBroadcast_def Let_def)
    from broadcastToAll_recipients[OF this assms(1) fo] reg show ?thesis by auto
  qed
  show ?thesis
  proof (intro exI conjI allI impI)
    show "handleEventBroadcast fuel now c message s = Some s'" by (rule s')
    show "m_payload ?m =
      EventPayload (p_eventType (i_payload message)) (p_eventPayload (i_payload message)) c"
      by (simp add: event_message_def)
    show "recipients ?m s s' = {d \<in> set (membersOf R s). d \<noteq> c \<and> deliverable d s}"
      if "p_room (i_payload message) = Some R \<and> R \<noteq> []" for R
      using that by (rule room)
    show "recipients ?m s s' = {d \<in> set (registered s). d \<noteq> c \<and> deliverable d s}"
      if "p_room (i_payload message) = None"
      using that by (rule everyone)
  qed
qed

theorem event_broadcast_recipients_witness:
  "map_option (recipients (event_message 7 ''client_1_x'' (i_payload ping_event)) three_clients)
     (handleEventBroadcast 3 7 ''client_1_x'' ping_event three_clients) = Some {''client_3_z''}"
proof -
  have wf: "wf_maps three_clients" by (simp add: wf_maps_def three_clients_def)
  have len: "length (clients three_clients) \<le> 3" by (simp add: three_clients_def)
  have r: "p_room (i_payload ping_event) = Some ''global'' \<and> ''global'' \<noteq> []"
    by (simp add: ping_event_def no_payload_def)
  from event_broadcast_recipients[OF wf len, of 7 "''client_1_x''" ping_event] obtain s' where
    s': "handleEventBroadcast 3 7 ''client_1_x'' ping_event three_clients = Some s'"
    and all: "\<forall>R. p_room (i_payload ping_event) = Some R \<and> R \<noteq> [] \<longrightarrow>
          recipients (event_message 7 ''client_1_x'' (i_payload ping_event)) three_clients s' =
          {d \<in> set (membersOf R three_clients). d \<noteq> ''client_1_x'' \<and> deliverable d three_clients}"
    by (elim exE conjE)
  from all r
  have rec: "recipients (event_message 7 ''client_1_x'' (i_payload ping_event)) three_clients s' =
     {d \<in> set (membersOf ''global'' three_clients). d \<noteq> ''client_1_x'' \<and> deliverable d three_clients}"
    by (elim allE[of _ "''global''"] impE) assumption+
  have "{d \<in> set (membersOf ''global'' three_clients). d \<noteq> ''client_1_x'' \<and> deliverable d three_clients}
        = {''client_3_z''}"
    by (auto simp: membersOf_def members_at_def three_clients_def deliverable_def member_def
          open_socket_def closing_socket_def)
  with s' rec show ?thesis by simp
qed

subsection \<open>STATE_SYNC\<close>

lemma recipients_trans:
  assumes "rtranclp disc_step s s1" and "rtranclp disc_step s1 s'"
  shows "recipients m s s' = recipients m s s1 \<union> recipients m s1 s'"
proof -
  from disc_steps_outbox[OF assms(1)] obtain n1 where n1: "outbox s1 = outbox s @ n1" by blast
  from disc_steps_outbox[OF assms(2)] obtain n2 where n2: "outbox s' = outbox s1 @ n2" by blast
  show ?thesis unfolding recipients_def new_frames_trans[OF n1 n2] by auto
qed

lemma broadcastToUser_recipients:
  assumes "broadcastToUser fuel now u m ex s = Some s'" and "wf_maps s" and "foreign now m s"
  shows "recipients m s s' = {d \<in> set (connectionsOf u s). Some d \<noteq> ex \<and> deliverable d s}"
proof (cases "map_of (userSessions s) u")
  case None
  with assms(1) show ?thesis
    by (simp add: broadcastToUser_def recipients_def connectionsOf_def members_at_def)
next
  case (Some userClients)
  then have uc: "connectionsOf u s = userClients" by (simp add: connectionsOf_def members_at_def)
  from assms(1) Some have "forEach_send fuel now (connectionsOf u) userClients m ex s = Some s'"
    by (simp add: broadcastToUser_def)
  from exact(4)[OF this stable_connectionsOf assms(2,3)] show ?thesis
    unfolding recipients_filter uc by (auto simp: image_iff)
qed

lemma forEach_user_recipients:
  assumes "forEach_user fuel now us m ex s = Some s'" and "wf_maps s" and "foreign now m s"
  shows "recipients m s s' =
           {d. \<exists>u\<in>set us. d \<in> set (connectionsOf u s) \<and> Some d \<noteq> ex \<and> deliverable d s}"
  using assms
proof (induction us arbitrary: s)
  case Nil
  then show ?case by (simp add: recipients_def)
next
  case (Cons u us)
  then obtain s1 where s1: "broadcastToUser fuel now u m ex s = Some s1"
    and rest: "forEach_user fuel now us m ex s1 = Some s'"
    by (auto simp: bind_eq_Some_conv)
  note st1 = broadcastToUser_steps[OF s1]
  note st2 = forEach_user_steps[OF rest]
  have wf1: "wf_maps s1" using send_steps_wf[OF st1 Cons.prems(2)] .
  have fo1: "foreign now m s1" using foreign_steps[OF send_steps_disc[OF st1] Cons.prems(3)] .
  have same: "(d \<in> set (connectionsOf v s1) \<and> deliverable d s1) =
              (d \<in> set (connectionsOf v s) \<and> deliverable d s)" for d v
    using send_steps_deliverable[OF st1, of d]
      send_steps_stable[OF st1 stable_connectionsOf Cons.prems(2), of d v] by auto
  have "recipients m s s' = recipients m s s1 \<union> recipients m s1 s'"
    using recipients_trans[OF send_steps_disc[OF st1] send_steps_disc[OF st2]] .
  also have "recipients m s s1 = {d \<in> set (connectionsOf u s). Some d \<noteq> ex \<and> deliverable d s}"
    using broadcastToUser_recipients[OF s1 Cons.prems(2,3)] .
  also have "recipients m s1 s' =
      {d. \<exists>v\<in>set us. d \<in> set (connectionsOf v s1) \<and> Some d \<noteq> ex \<and> deliverable d s1}"
    using Cons.IH[OF rest wf1 fo1] .
  also have "\<dots> = {d. \<exists>v\<in>set us. d \<in> set (connectionsOf v s) \<and> Some d \<noteq> ex \<and> deliverable d s}"
    using same by auto
  finally show ?case by auto
qed

text \<open>
  Claim C2 as stated fails: the second connection of the user has a transport that is
  not open; a STATE_SYNC from the first connection to the user is written to the third
  connection only.
\<close>

theorem state_sync_skips_closing:
  "map_option (map fst \<circ> new_frames three_clients)
     (handleStateSync 3 7 ''client_1_x'' sync_u1 three_clients) = Some [''client_3_z''] \<and>
   connectionsOf ''u1'' three_clients = [''client_1_x'', ''client_2_y'', ''client_3_z'']"
  by code_simp

text \<open>
  Claim C2, as amended. When the router handles a STATE_SYNC of a sender, the resolved
  targets are the connections of the listed users if \<open>targetUsers\<close> is a non-empty list,
  and all registered connections otherwise; if \<open>excludeSelf\<close> is true, or absent, the
  sender is taken out. The message is written to exactly the resolved targets that are
  registered with an open transport on which the write does not raise.
\<close>

theorem state_sync_recipients:
  assumes "wf_maps s" and "length (clients s) \<le> fuel"
  shows "\<exists>s'. handleStateSync fuel now c message s = Some s' \<and>
           recipients (state_sync_message now c (i_payload message)) s s' =
             {d \<in> sync_targets (i_payload message) s.
                (p_excludeSelf (i_payload message) \<noteq> Some False \<longrightarrow> d \<noteq> c) \<and> deliverable d s}"
proof -
  let ?p = "i_payload message"
  let ?m = "state_sync_message now c ?p"
  from handleStateSync_total[OF assms(2)] obtain s' where
    s': "handleStateSync fuel now c message s = Some s'" by blast
  have fo: "foreign now ?m s" by (rule foreign_type) (simp add: state_sync_message_def)
  have reg: "deliverable d s \<Longrightarrow> d \<in> set (registered s)" for d
    by (auto simp: deliverable_def registered_iff split: option.splits)
  have ex: "Some d \<noteq> excluded c ?p \<longleftrightarrow> (p_excludeSelf ?p \<noteq> Some False \<longrightarrow> d \<noteq> c)" for d
    by (auto simp: excluded_def split: option.splits)
  have "recipients ?m s s' =
          {d \<in> sync_targets ?p s. (p_excludeSelf ?p \<noteq> Some False \<longrightarrow> d \<noteq> c) \<and> deliverable d s}"
  proof (cases "\<exists>us. p_targetUsers ?p = Some us \<and> us \<noteq> []")
    case True
    then obtain us where us: "p_targetUsers ?p = Some us" "us \<noteq> []" by auto
    with s' have "forEach_user fuel now us ?m (excluded c ?p) s = Some s'"
      by (simp add: handleStateSync_def Let_def)
    from forEach_user_recipients[OF this assms(1) fo] us show ?thesis
      by (auto simp: sync_targets_def ex)
  next
    case False
    with s' have "broadcastToAll fuel now ?m (excluded c ?p) s = Some s'"
      by (auto simp: handleStateSync_def Let_def split: option.splits)
    from broadcastToAll_recipients[OF this assms(1) fo] False reg show ?thesis
      by (auto simp: sync_targets_def ex split: option.splits)
  qed
  with s' show ?thesis by (intro exI[of _ s'] conjI)
qed

theorem state_sync_recipients_witness:
  "map_option (recipients (state_sync_message 7 ''client_1_x'' (i_payload sync_u1)) three_clients)
     (handleStateSync 3 7 ''client_1_x'' sync_u1 three_clients) = Some {''client_3_z''}"
proof -
  have wf: "wf_maps three_clients" by (simp add: wf_maps_def three_clients_def)
  have len: "length (clients three_clients) \<le> 3" by (simp add: three_clients_def)
  from state_sync_recipients[OF wf len, of 7 "''client_1_x''" sync_u1] obtain s' where
    s': "handleStateSync 3 7 ''client_1_x'' sync_u1 three_clients = Some s'"
    and rec: "recipients (state_sync_message 7 ''client_1_x'' (i_payload sync_u1)) three_clients s' =
          {d \<in> sync_targets (i_payload sync_u1) three_clients.
             (p_excludeSelf (i_payload sync_u1) \<noteq> Some False \<longrightarrow> d \<noteq> ''client_1_x'') \<and>
             deliverable d three_clients}"
    by (elim exE conjE)
  have "{d \<in> sync_targets (i_payload sync_u1) three_clients.
             (p_excludeSelf (i_payload sync_u1) \<noteq> Some False \<longrightarrow> d \<noteq> ''client_1_x'') \<and>
             deliverable d three_clients} = {''client_3_z''}"
    by (auto simp: sync_targets_def sync_u1_def no_payload_def connectionsOf_def members_at_def
          three_clients_def deliverable_def member_def open_socket_def closing_socket_def)
  with s' rec show ?thesis by simp
qed

subsection \<open>The sweep\<close>









subsection \<open>Indexes and registry\<close>

lemma rooms_registered_iff:
  "rooms_registered s \<longleftrightarrow>
     (\<forall>r ms c. (r, ms) \<in> set (rooms s) \<longrightarrow> c \<in> set ms \<longrightarrow> c \<in> set (registered s))"
  by (auto simp: rooms_registered_def list_all_iff)

lemma purge_rooms_entries:
  "(r, ms') \<in> set (purge_rooms c rs) \<Longrightarrow> \<exists>ms. (r, ms) \<in> set rs \<and> ms' = removeAll c ms"
  by (induction c rs rule: purge_rooms.induct) (auto simp: Let_def split: if_splits)

lemma join_entries:
  "(r, ms') \<in> set (join k c m) \<Longrightarrow> (r, ms') \<in> set m \<or> set ms' \<subseteq> insert c (set (members_at m k))"
  using set_update_subset[of k "set_add c (members_at m k)" m]
  by (auto simp: join_def set_set_add)

lemma members_at_entry: "d \<in> set (members_at m k) \<Longrightarrow> \<exists>ms. (k, ms) \<in> set m \<and> d \<in> set ms"
proof (cases "map_of m k")
  case None
  assume "d \<in> set (members_at m k)"
  with None show ?thesis by (simp add: members_at_def)
next
  case (Some ms)
  assume "d \<in> set (members_at m k)"
  with Some map_of_SomeD[OF Some] show ?thesis by (auto simp: members_at_def)
qed

lemma leave_entries:
  "(r, ms') \<in> set (leave k c m) \<Longrightarrow> \<exists>ms. (r, ms) \<in> set m \<and> set ms' \<subseteq> set ms"
proof (cases "map_of m k")
  case None
  assume "(r, ms') \<in> set (leave k c m)"
  with None show ?thesis by (auto simp: leave_def)
next
  case (Some ms0)
  assume a: "(r, ms') \<in> set (leave k c m)"
  from Some have in0: "(k, ms0) \<in> set m" by (rule map_of_SomeD)
  show ?thesis
  proof (cases "removeAll c ms0 = []")
    case True
    with a Some have "(r, ms') \<in> set (AList.delete k m)" by (simp add: leave_def)
    with set_delete_subset[of k m] show ?thesis by auto
  next
    case False
    with a Some have "(r, ms') \<in> set (AList.update k (removeAll c ms0) m)"
      by (simp add: leave_def Let_def)
    with set_update_subset[of k "removeAll c ms0" m]
    have "(r, ms') = (k, removeAll c ms0) \<or> (r, ms') \<in> set m" by auto
    with in0 show ?thesis by auto
  qed
qed

lemma rooms_registered_disc: "disc_step s s' \<Longrightarrow> rooms_registered s \<Longrightarrow> rooms_registered s'"
proof (induction rule: disc_step.induct)
  case (delivered s c client m)
  then show ?case by (simp add: rooms_registered_iff registered_def)
next
  case (evicted s c client)
  show ?case
    unfolding rooms_registered_iff
  proof (intro allI impI)
    fix r ms' d
    assume "(r, ms') \<in> set (rooms (unregister c client s))" and d: "d \<in> set ms'"
    then have "(r, ms') \<in> set (purge_rooms c (rooms s))" by simp
    from purge_rooms_entries[OF this] obtain ms where
      ms: "(r, ms) \<in> set (rooms s)" "ms' = removeAll c ms" by blast
    with d have "d \<in> set ms" "d \<noteq> c" by auto
    with ms(1) evicted.prems have "d \<in> set (registered s)" by (auto simp: rooms_registered_iff)
    with \<open>d \<noteq> c\<close> show "d \<in> set (registered (unregister c client s))"
      by (simp add: registered_def delete_keys)
  qed
next
  case (logged s l t)
  then show ?case by (simp add: rooms_registered_iff registered_def)
qed

lemma rooms_registered_update:
  assumes "rooms_registered s"
  shows "rooms_registered (s\<lparr>clients := AList.update c cl (clients s)\<rparr>)"
proof -
  have "set (registered s) \<subseteq> set (registered (s\<lparr>clients := AList.update c cl (clients s)\<rparr>))"
    using dom_update[of c cl "clients s"] by (auto simp: registered_def)
  with assms show ?thesis unfolding rooms_registered_iff by (simp, blast)
qed

lemma foldl_join_registered:
  assumes "c \<in> R" and "\<And>r ms d. (r, ms) \<in> set m \<Longrightarrow> d \<in> set ms \<Longrightarrow> d \<in> R"
  shows "(r, ms) \<in> set (foldl (\<lambda>m roomId. join roomId c m) m rs) \<Longrightarrow> d \<in> set ms \<Longrightarrow> d \<in> R"
  using assms(2)
proof (induction rs arbitrary: m)
  case Nil
  then show ?case by simp
next
  case (Cons k rs)
  have "d' \<in> R" if "(r', ms') \<in> set (join k c m)" and "d' \<in> set ms'" for r' ms' d'
  proof -
    from join_entries[OF that(1)] that(2)
    consider "(r', ms') \<in> set m" | "d' = c" | "d' \<in> set (members_at m k)" by auto
    then show ?thesis
    proof cases
      case 1
      with that(2) Cons.prems(3) show ?thesis by blast
    next
      case 2
      with assms(1) show ?thesis by simp
    next
      case 3
      from members_at_entry[OF this] Cons.prems(3) show ?thesis by blast
    qed
  qed
  from Cons.IH[OF _ Cons.prems(2) this] Cons.prems(1) show ?case by simp
qed

lemma foldl_leave_registered:
  assumes "\<And>r ms d. (r, ms) \<in> set m \<Longrightarrow> d \<in> set ms \<Longrightarrow> d \<in> R"
  shows "(r, ms) \<in> set (foldl (\<lambda>m roomId. leave roomId c m) m rs) \<Longrightarrow> d \<in> set ms \<Longrightarrow> d \<in> R"
  using assms
proof (induction rs arbitrary: m)
  case Nil
  then show ?case by simp
next
  case (Cons k rs)
  have "d' \<in> R" if "(r', ms') \<in> set (leave k c m)" and "d' \<in> set ms'" for r' ms' d'
    using leave_entries[OF that(1)] that(2) Cons.prems(3) by blast
  from Cons.IH[OF _ Cons.prems(2) this] Cons.prems(1) show ?case by simp
qed

lemma rooms_registered_subscribe:
  assumes "rooms_registered s"
  shows "rooms_registered (handleSubscribe c message s)"
proof (cases "map_of (clients s) c")
  case None
  with assms show ?thesis by (simp add: handleSubscribe_def)
next
  case (Some client)
  then have c: "c \<in> set (registered s)" by (simp add: registered_iff)
  have old: "d \<in> set (registered s)" if "(r, ms) \<in> set (rooms s)" "d \<in> set ms" for r ms d
    using assms that unfolding rooms_registered_iff by blast
  have reg: "registered (handleSubscribe c message s) = registered s"
    using Some by (simp add: handleSubscribe_def Let_def registered_def keys_update_present)
  have "rooms (handleSubscribe c message s) =
      (case p_rooms (i_payload message) of
         None \<Rightarrow> rooms s
       | Some roomIds \<Rightarrow> foldl (\<lambda>m roomId. join roomId c m) (rooms s) roomIds)"
    using Some by (simp add: handleSubscribe_def Let_def)
  then show ?thesis
    unfolding rooms_registered_iff reg
    using old foldl_join_registered[of c "set (registered s)" "rooms s", OF c old]
    by (auto split: option.splits)
qed

lemma rooms_registered_unsubscribe:
  assumes "rooms_registered s"
  shows "rooms_registered (handleUnsubscribe c message s)"
proof (cases "map_of (clients s) c")
  case None
  with assms show ?thesis by (simp add: handleUnsubscribe_def)
next
  case (Some client)
  have old: "d \<in> set (registered s)" if "(r, ms) \<in> set (rooms s)" "d \<in> set ms" for r ms d
    using assms that unfolding rooms_registered_iff by blast
  have reg: "registered (handleUnsubscribe c message s) = registered s"
    using Some by (simp add: handleUnsubscribe_def Let_def registered_def keys_update_present)
  have "rooms (handleUnsubscribe c message s) =
      (case p_rooms (i_payload message) of
         None \<Rightarrow> rooms s
       | Some roomIds \<Rightarrow> foldl (\<lambda>m roomId. leave roomId c m) (rooms s) roomIds)"
    using Some by (simp add: handleUnsubscribe_def Let_def)
  then show ?thesis
    unfolding rooms_registered_iff reg
    using old foldl_leave_registered[of "rooms s" "set (registered s)", OF old]
    by (auto split: option.splits)
qed

text \<open>The room index is consistent with the registry in every reachable state.\<close>

lemma rooms_registered_reachable: "run evs init = Some s \<Longrightarrow> rooms_registered s"
proof (rule run_preserves[of rooms_registered])
  show "rooms_registered init" by (simp add: rooms_registered_def init_def)
  show "rooms_registered (s\<lparr>timers := t\<rparr>)" if "rooms_registered s" for s t
    using that by (simp add: rooms_registered_iff registered_def)
qed (simp_all add: rooms_registered_disc rooms_registered_update rooms_registered_subscribe
       rooms_registered_unsubscribe)

text \<open>
  Claim C3 fails on the code. \<open>handleSubscribe\<close> adds the connection to the session set
  of the new user and leaves it in the set of the user it was bound to before;
  \<open>handleDisconnection\<close> removes it from the set of its current user only. After the
  events of \<open>rebind\<close> the registry is empty and the session set of \<open>u1\<close> still holds the
  identifier of the connection.
\<close>

theorem rebind_leaves_stale_session:
  "map_option registered (run rebind init) = Some [] \<and>
   map_option userSessions (run rebind init) = Some [(''u1'', [''client_1_x''])]"
  by code_simp

end
